theory Spec2Isabelle
  imports Complex_Main
begin

section \<open>Page replacement simulator: the engines of algorithms.js\<close>

text \<open>
  The theory embeds \<^verbatim>\<open>simulateFIFO\<close>, \<^verbatim>\<open>simulateLRU\<close>, \<^verbatim>\<open>simulateOPT\<close>,
  \<^verbatim>\<open>simulateCLOCK\<close> and the dispatcher \<^verbatim>\<open>simulate\<close>.

  Conventions of the embedding.
  \<^item> A page is an integer (\<^verbatim>\<open>parseRefs\<close> produces integers); a frame holds
    \<^verbatim>\<open>null\<close> or a page, so a frame is a \<open>int option\<close> and \<open>None\<close> is \<^verbatim>\<open>null\<close>.
  \<^item> \<^verbatim>\<open>Array.prototype.indexOf\<close> returns \<open>-1\<close> or a position; here it returns
    \<open>None\<close> or \<open>Some\<close> position.
  \<^item> A \<^verbatim>\<open>for (let i = 0; i < n; i++)\<close> loop whose body never changes \<open>i\<close> or
    \<open>n\<close> is a left fold of the body over \<open>[0..<n]\<close>.
  \<^item> A \<^verbatim>\<open>throw new Error(msg)\<close> is the value \<open>Inl (Error msg)\<close>.
  \<^item> The numbers compared during the victim scans range over indices, \<open>-1\<close>,
    \<^verbatim>\<open>Infinity\<close> and \<^verbatim>\<open>-Infinity\<close>; they are the type \<open>ext\<close>.
  \<^item> The field \<^verbatim>\<open>note\<close> of a step, a display text assembled from values that the
    step already carries, is not part of the embedding.
  \<^item> The engines are reached through \<open>simulate\<close> only, hence with
    \<open>1 \<le> framesCount \<le> 50\<close>; under that bound every array access of the engines is
    inside the array (lemmas below), and list update and \<open>!\<close> agree with JavaScript.
\<close>

subsection \<open>Values\<close>

type_synonym page = int
type_synonym slot = "page option"

datatype error = Error string

text \<open>Numbers of the victim scans: an integer, \<^verbatim>\<open>Infinity\<close> or \<^verbatim>\<open>-Infinity\<close>.\<close>

datatype ext = NegInfinity | Fin int | Infinity

fun ext_less :: "ext \<Rightarrow> ext \<Rightarrow> bool" where
  "ext_less NegInfinity NegInfinity = False"
| "ext_less NegInfinity _ = True"
| "ext_less (Fin a) (Fin b) = (a < b)"
| "ext_less (Fin a) Infinity = True"
| "ext_less (Fin a) NegInfinity = False"
| "ext_less Infinity _ = False"

text \<open>
  The argument \<^verbatim>\<open>framesCount\<close> of \<^verbatim>\<open>simulate\<close> as the caller may pass it: a finite
  number, a number that is not finite (\<^verbatim>\<open>NaN\<close>, \<^verbatim>\<open>Infinity\<close>, \<^verbatim>\<open>-Infinity\<close>), or a
  value that is not a number at all.
\<close>

datatype js_value = JNum rat | JNonFinite | JNotNumber

text \<open>\<^verbatim>\<open>Number.isInteger\<close>: false for every value that is not a finite number.\<close>

fun isInteger :: "js_value \<Rightarrow> bool" where
  "isInteger (JNum q) = (of_int \<lfloor>q\<rfloor> = q)"
| "isInteger JNonFinite = False"
| "isInteger JNotNumber = False"

subsection \<open>Step records\<close>

record clock_meta =
  refBits :: "nat list"
  hand :: nat

record step =
  index :: nat
  page :: page
  frames :: "slot list"
  hit :: bool
  fault :: bool
  replaced :: slot
  replacedIndex :: "int option"
  meta :: "clock_meta option"

record summary =
  hits :: nat
  faults :: nat

record result =
  steps :: "step list"
  summary :: summary

definition assert :: "bool \<Rightarrow> string \<Rightarrow> error + unit" where
  "assert cond msg = (if cond then Inr () else Inl (Error msg))"

definition cloneArray :: "'a list \<Rightarrow> 'a list" where
  "cloneArray arr = arr"

definition makeStep :: "nat \<Rightarrow> page \<Rightarrow> slot list \<Rightarrow> step" where
  "makeStep i p fr =
     \<lparr>index = i, page = p, frames = cloneArray fr, hit = False, fault = False,
      replaced = None, replacedIndex = None, meta = None\<rparr>"

fun indexOf :: "'a list \<Rightarrow> 'a \<Rightarrow> nat option" where
  "indexOf [] x = None"
| "indexOf (y # ys) x = (if y = x then Some 0 else map_option Suc (indexOf ys x))"

text \<open>\<^verbatim>\<open>Array(framesCount).fill(v)\<close>\<close>

definition array_fill :: "nat \<Rightarrow> 'a \<Rightarrow> 'a list" where
  "array_fill n v = replicate n v"

text \<open>
  \<^verbatim>\<open>arr[i] = v\<close> for a number \<open>i\<close> that may be \<open>-1\<close>: a negative index sets a property
  of the array object and leaves its elements as they are.
\<close>

definition array_set :: "'a list \<Rightarrow> int \<Rightarrow> 'a \<Rightarrow> 'a list" where
  "array_set arr i v = (if 0 \<le> i then arr[nat i := v] else arr)"

subsection \<open>FIFO\<close>

record fifo_state =
  fifo_frames :: "slot list"
  fifo_pointer :: nat
  fifo_hits :: nat
  fifo_faults :: nat
  fifo_steps :: "step list"

definition fifo_init :: "nat \<Rightarrow> fifo_state" where
  "fifo_init framesCount =
     \<lparr>fifo_frames = array_fill framesCount None, fifo_pointer = 0,
      fifo_hits = 0, fifo_faults = 0, fifo_steps = []\<rparr>"

text \<open>The body of the loop of \<^verbatim>\<open>simulateFIFO\<close> at index \<open>i\<close>.\<close>

definition fifo_step :: "nat \<Rightarrow> page list \<Rightarrow> fifo_state \<Rightarrow> nat \<Rightarrow> fifo_state" where
  "fifo_step framesCount refs st i =
     (let p = refs ! i;
          fr = fifo_frames st;
          stp = makeStep i p fr
      in case indexOf fr (Some p) of
           Some hitIndex \<Rightarrow>
             st\<lparr>fifo_hits := fifo_hits st + 1,
                fifo_steps := fifo_steps st @ [stp\<lparr>hit := True, frames := cloneArray fr\<rparr>]\<rparr>
         | None \<Rightarrow>
             (case indexOf fr None of
                Some emptyIndex \<Rightarrow>
                  let fr' = fr[emptyIndex := Some p]
                  in st\<lparr>fifo_frames := fr',
                        fifo_faults := fifo_faults st + 1,
                        fifo_steps := fifo_steps st @
                          [stp\<lparr>fault := True, frames := cloneArray fr'\<rparr>]\<rparr>
              | None \<Rightarrow>
                  let victimIndex = fifo_pointer st;
                      victimPage = fr ! victimIndex;
                      fr' = fr[victimIndex := Some p]
                  in st\<lparr>fifo_frames := fr',
                        fifo_pointer := (fifo_pointer st + 1) mod framesCount,
                        fifo_faults := fifo_faults st + 1,
                        fifo_steps := fifo_steps st @
                          [stp\<lparr>fault := True, replaced := victimPage,
                               replacedIndex := Some (int victimIndex),
                               frames := cloneArray fr'\<rparr>]\<rparr>))"

text \<open>
  The state of the loop of \<^verbatim>\<open>simulateFIFO\<close> when \<open>i\<close> has reached \<open>n\<close>; the function
  returns from the state at \<open>n = refs.length\<close>. The other engines follow the same
  pattern.
\<close>

definition fifo_run :: "nat \<Rightarrow> page list \<Rightarrow> nat \<Rightarrow> fifo_state" where
  "fifo_run framesCount refs n = foldl (fifo_step framesCount refs) (fifo_init framesCount) [0..<n]"

definition simulateFIFO :: "nat \<Rightarrow> page list \<Rightarrow> result" where
  "simulateFIFO framesCount refs =
     (let st = fifo_run framesCount refs (length refs)
      in \<lparr>steps = fifo_steps st, summary = \<lparr>hits = fifo_hits st, faults = fifo_faults st\<rparr>\<rparr>)"

subsection \<open>LRU\<close>

record lru_state =
  lru_frames :: "slot list"
  lru_lastUsed :: "slot \<rightharpoonup> nat"
  lru_hits :: nat
  lru_faults :: nat
  lru_steps :: "step list"

definition lru_init :: "nat \<Rightarrow> lru_state" where
  "lru_init framesCount =
     \<lparr>lru_frames = array_fill framesCount None, lru_lastUsed = Map.empty,
      lru_hits = 0, lru_faults = 0, lru_steps = []\<rparr>"

text \<open>
  \<^verbatim>\<open>lastUsed.has(page) ? lastUsed.get(page) : -Infinity\<close>
\<close>

definition lru_time :: "(slot \<rightharpoonup> nat) \<Rightarrow> slot \<Rightarrow> ext" where
  "lru_time lastUsed pg = (case lastUsed pg of Some u \<Rightarrow> Fin (int u) | None \<Rightarrow> NegInfinity)"

text \<open>
  The victim scan of LRU: the state of the scan is
  \<open>(victimIndex, victimPage, minLastUsed)\<close>, started at \<open>(-1, null, Infinity)\<close>.
\<close>

definition lru_scan_body :: "slot list \<Rightarrow> (slot \<rightharpoonup> nat) \<Rightarrow> int \<times> slot \<times> ext \<Rightarrow> nat \<Rightarrow> int \<times> slot \<times> ext" where
  "lru_scan_body fr lastUsed acc fi =
     (case acc of (victimIndex, victimPage, minLastUsed) \<Rightarrow>
        let pg = fr ! fi;
            t = lru_time lastUsed pg
        in if ext_less t minLastUsed then (int fi, pg, t)
           else (victimIndex, victimPage, minLastUsed))"

definition lru_scan :: "nat \<Rightarrow> slot list \<Rightarrow> (slot \<rightharpoonup> nat) \<Rightarrow> int \<times> slot \<times> ext" where
  "lru_scan framesCount fr lastUsed =
     foldl (lru_scan_body fr lastUsed) (- 1, None, Infinity) [0..<framesCount]"

definition lru_step :: "nat \<Rightarrow> page list \<Rightarrow> lru_state \<Rightarrow> nat \<Rightarrow> lru_state" where
  "lru_step framesCount refs st i =
     (let p = refs ! i;
          fr = lru_frames st;
          lastUsed = lru_lastUsed st;
          stp = makeStep i p fr
      in case indexOf fr (Some p) of
           Some hitIndex \<Rightarrow>
             st\<lparr>lru_lastUsed := lastUsed(Some p \<mapsto> i),
                lru_hits := lru_hits st + 1,
                lru_steps := lru_steps st @ [stp\<lparr>hit := True, frames := cloneArray fr\<rparr>]\<rparr>
         | None \<Rightarrow>
             (case indexOf fr None of
                Some emptyIndex \<Rightarrow>
                  let fr' = fr[emptyIndex := Some p]
                  in st\<lparr>lru_frames := fr',
                        lru_lastUsed := lastUsed(Some p \<mapsto> i),
                        lru_faults := lru_faults st + 1,
                        lru_steps := lru_steps st @
                          [stp\<lparr>fault := True, frames := cloneArray fr'\<rparr>]\<rparr>
              | None \<Rightarrow>
                  (case lru_scan framesCount fr lastUsed of
                     (victimIndex, victimPage, minLastUsed) \<Rightarrow>
                       let fr' = array_set fr victimIndex (Some p)
                       in st\<lparr>lru_frames := fr',
                             lru_lastUsed := (lastUsed(victimPage := None))(Some p \<mapsto> i),
                             lru_faults := lru_faults st + 1,
                             lru_steps := lru_steps st @
                               [stp\<lparr>fault := True, replaced := victimPage,
                                    replacedIndex := Some victimIndex,
                                    frames := cloneArray fr'\<rparr>]\<rparr>)))"

definition lru_run :: "nat \<Rightarrow> page list \<Rightarrow> nat \<Rightarrow> lru_state" where
  "lru_run framesCount refs n = foldl (lru_step framesCount refs) (lru_init framesCount) [0..<n]"

definition simulateLRU :: "nat \<Rightarrow> page list \<Rightarrow> result" where
  "simulateLRU framesCount refs =
     (let st = lru_run framesCount refs (length refs)
      in \<lparr>steps = lru_steps st, summary = \<lparr>hits = lru_hits st, faults = lru_faults st\<rparr>\<rparr>)"

subsection \<open>OPT\<close>

record opt_state =
  opt_frames :: "slot list"
  opt_hits :: nat
  opt_faults :: nat
  opt_steps :: "step list"

definition opt_init :: "nat \<Rightarrow> opt_state" where
  "opt_init framesCount =
     \<lparr>opt_frames = array_fill framesCount None,
      opt_hits = 0, opt_faults = 0, opt_steps = []\<rparr>"

text \<open>
  The inner loop \<^verbatim>\<open>for (let j = i + 1; j < refs.length; j++)\<close> with its \<^verbatim>\<open>break\<close>,
  entered at \<open>j\<close>; \<open>nextUse\<close> starts as \<^verbatim>\<open>Infinity\<close>.
\<close>

function nextUse_from :: "page list \<Rightarrow> slot \<Rightarrow> nat \<Rightarrow> ext" where
  "nextUse_from refs pg j =
     (if j < length refs
      then (if Some (refs ! j) = pg then Fin (int j) else nextUse_from refs pg (j + 1))
      else Infinity)"
  by pat_completeness auto
termination
  by (relation "measure (\<lambda>(refs, pg, j). length refs - j)") auto

declare nextUse_from.simps [simp del]

text \<open>
  The victim scan of OPT: the state of the scan is
  \<open>(victimIndex, victimPage, farthestNextUse)\<close>, started at \<open>(0, frames[0], -1)\<close>.
\<close>

definition opt_scan_body :: "page list \<Rightarrow> nat \<Rightarrow> slot list \<Rightarrow> nat \<times> slot \<times> ext \<Rightarrow> nat \<Rightarrow> nat \<times> slot \<times> ext" where
  "opt_scan_body refs i fr acc fi =
     (case acc of (victimIndex, victimPage, farthestNextUse) \<Rightarrow>
        let pg = fr ! fi;
            nextUse = nextUse_from refs pg (i + 1)
        in if ext_less farthestNextUse nextUse then (fi, pg, nextUse)
           else (victimIndex, victimPage, farthestNextUse))"

definition opt_scan :: "nat \<Rightarrow> page list \<Rightarrow> nat \<Rightarrow> slot list \<Rightarrow> nat \<times> slot \<times> ext" where
  "opt_scan framesCount refs i fr =
     foldl (opt_scan_body refs i fr) (0, fr ! 0, Fin (- 1)) [0..<framesCount]"

definition opt_step :: "nat \<Rightarrow> page list \<Rightarrow> opt_state \<Rightarrow> nat \<Rightarrow> opt_state" where
  "opt_step framesCount refs st i =
     (let p = refs ! i;
          fr = opt_frames st;
          stp = makeStep i p fr
      in case indexOf fr (Some p) of
           Some hitIndex \<Rightarrow>
             st\<lparr>opt_hits := opt_hits st + 1,
                opt_steps := opt_steps st @ [stp\<lparr>hit := True, frames := cloneArray fr\<rparr>]\<rparr>
         | None \<Rightarrow>
             (case indexOf fr None of
                Some emptyIndex \<Rightarrow>
                  let fr' = fr[emptyIndex := Some p]
                  in st\<lparr>opt_frames := fr',
                        opt_faults := opt_faults st + 1,
                        opt_steps := opt_steps st @
                          [stp\<lparr>fault := True, frames := cloneArray fr'\<rparr>]\<rparr>
              | None \<Rightarrow>
                  (case opt_scan framesCount refs i fr of
                     (victimIndex, victimPage, farthestNextUse) \<Rightarrow>
                       let fr' = fr[victimIndex := Some p]
                       in st\<lparr>opt_frames := fr',
                             opt_faults := opt_faults st + 1,
                             opt_steps := opt_steps st @
                               [stp\<lparr>fault := True, replaced := victimPage,
                                    replacedIndex := Some (int victimIndex),
                                    frames := cloneArray fr'\<rparr>]\<rparr>)))"

definition opt_run :: "nat \<Rightarrow> page list \<Rightarrow> nat \<Rightarrow> opt_state" where
  "opt_run framesCount refs n = foldl (opt_step framesCount refs) (opt_init framesCount) [0..<n]"

definition simulateOPT :: "nat \<Rightarrow> page list \<Rightarrow> result" where
  "simulateOPT framesCount refs =
     (let st = opt_run framesCount refs (length refs)
      in \<lparr>steps = opt_steps st, summary = \<lparr>hits = opt_hits st, faults = opt_faults st\<rparr>\<rparr>)"

subsection \<open>CLOCK\<close>

record clock_state =
  clock_frames :: "slot list"
  clock_refBits :: "nat list"
  clock_hand :: nat
  clock_hits :: nat
  clock_faults :: nat
  clock_steps :: "step list"

definition clock_init :: "nat \<Rightarrow> clock_state" where
  "clock_init framesCount =
     \<lparr>clock_frames = array_fill framesCount None,
      clock_refBits = array_fill framesCount 0, clock_hand = 0,
      clock_hits = 0, clock_faults = 0, clock_steps = []\<rparr>"

text \<open>What one completed victim scan of CLOCK leaves behind.\<close>

record clock_evict =
  ev_frames :: "slot list"
  ev_refBits :: "nat list"
  ev_hand :: nat
  ev_victimIndex :: nat
  ev_victimPage :: slot
  ev_scans :: nat

text \<open>
  The \<^verbatim>\<open>while (true)\<close> loop of the full-table fault, entered with \<open>scans\<close> iterations
  done. An iteration ends the loop by \<^verbatim>\<open>break\<close> (bit 0 under the hand), goes on, or
  throws when \<open>scans > framesCount * 5\<close>; so the loop is total.
\<close>

function clock_scan :: "nat \<Rightarrow> page \<Rightarrow> slot list \<Rightarrow> nat list \<Rightarrow> nat \<Rightarrow> nat \<Rightarrow> error + clock_evict" where
  "clock_scan framesCount p fr bits hnd scans =
     (let scans' = scans + 1
      in if bits ! hnd = 0
         then Inr \<lparr>ev_frames = fr[hnd := Some p], ev_refBits = bits[hnd := 1],
                   ev_hand = (hnd + 1) mod framesCount,
                   ev_victimIndex = hnd, ev_victimPage = fr ! hnd, ev_scans = scans'\<rparr>
         else (let bits' = bits[hnd := 0];
                   hnd' = (hnd + 1) mod framesCount
               in if scans' > framesCount * 5
                  then Inl (Error ''Clock algorithm safety break (unexpected loop).'')
                  else clock_scan framesCount p fr bits' hnd' scans'))"
  by pat_completeness auto
termination
  by (relation "measure (\<lambda>(framesCount, p, fr, bits, hnd, scans). framesCount * 5 + 1 - scans)") auto

declare clock_scan.simps [simp del]

definition clock_step :: "nat \<Rightarrow> page list \<Rightarrow> clock_state \<Rightarrow> nat \<Rightarrow> error + clock_state" where
  "clock_step framesCount refs st i =
     (let p = refs ! i;
          fr = clock_frames st;
          bits = clock_refBits st;
          stp = makeStep i p fr
      in case indexOf fr (Some p) of
           Some hitIndex \<Rightarrow>
             let bits' = bits[hitIndex := 1]
             in Inr (st\<lparr>clock_refBits := bits',
                        clock_hits := clock_hits st + 1,
                        clock_steps := clock_steps st @
                          [stp\<lparr>hit := True, frames := cloneArray fr,
                               meta := Some \<lparr>refBits = cloneArray bits', hand = clock_hand st\<rparr>\<rparr>]\<rparr>)
         | None \<Rightarrow>
             (case indexOf fr None of
                Some emptyIndex \<Rightarrow>
                  let fr' = fr[emptyIndex := Some p];
                      bits' = bits[emptyIndex := 1]
                  in Inr (st\<lparr>clock_frames := fr',
                             clock_refBits := bits',
                             clock_faults := clock_faults st + 1,
                             clock_steps := clock_steps st @
                               [stp\<lparr>fault := True, frames := cloneArray fr',
                                    meta := Some \<lparr>refBits = cloneArray bits', hand = clock_hand st\<rparr>\<rparr>]\<rparr>)
              | None \<Rightarrow>
                  (case clock_scan framesCount p fr bits (clock_hand st) 0 of
                     Inl e \<Rightarrow> Inl e
                   | Inr ev \<Rightarrow>
                       Inr (st\<lparr>clock_frames := ev_frames ev,
                               clock_refBits := ev_refBits ev,
                               clock_hand := ev_hand ev,
                               clock_faults := clock_faults st + 1,
                               clock_steps := clock_steps st @
                                 [stp\<lparr>fault := True, replaced := ev_victimPage ev,
                                      replacedIndex := Some (int (ev_victimIndex ev)),
                                      frames := cloneArray (ev_frames ev),
                                      meta := Some \<lparr>refBits = cloneArray (ev_refBits ev),
                                                    hand = ev_hand ev\<rparr>\<rparr>]\<rparr>))))"

text \<open>The loop over the references stops at the first iteration that throws.\<close>

definition clock_next :: "nat \<Rightarrow> page list \<Rightarrow> error + clock_state \<Rightarrow> nat \<Rightarrow> error + clock_state" where
  "clock_next framesCount refs acc i =
     (case acc of Inl e \<Rightarrow> Inl e | Inr st \<Rightarrow> clock_step framesCount refs st i)"

definition clock_run :: "nat \<Rightarrow> page list \<Rightarrow> nat \<Rightarrow> error + clock_state" where
  "clock_run framesCount refs n =
     foldl (clock_next framesCount refs) (Inr (clock_init framesCount)) [0..<n]"

definition simulateCLOCK :: "nat \<Rightarrow> page list \<Rightarrow> error + result" where
  "simulateCLOCK framesCount refs =
     (case clock_run framesCount refs (length refs) of
        Inl e \<Rightarrow> Inl e
      | Inr st \<Rightarrow>
          Inr \<lparr>steps = clock_steps st,
               summary = \<lparr>hits = clock_hits st, faults = clock_faults st\<rparr>\<rparr>)"

subsection \<open>The dispatcher\<close>

text \<open>
  The first \<^verbatim>\<open>assert\<close> of \<^verbatim>\<open>simulate\<close>: \<^verbatim>\<open>&&\<close> evaluates the comparisons only for a
  value that \<^verbatim>\<open>Number.isInteger\<close> accepts, that is, for a finite number.
\<close>

fun validFrames :: "js_value \<Rightarrow> bool" where
  "validFrames (JNum q) = (isInteger (JNum q) \<and> q \<ge> 1 \<and> q \<le> 50)"
| "validFrames v = False"

text \<open>The natural number that an accepted \<^verbatim>\<open>framesCount\<close> is.\<close>

fun framesOf :: "js_value \<Rightarrow> nat" where
  "framesOf (JNum q) = nat \<lfloor>q\<rfloor>"
| "framesOf v = 0"

definition simulate :: "string \<Rightarrow> js_value \<Rightarrow> page list \<Rightarrow> error + result" where
  "simulate algoName framesCount refs =
     (case assert (validFrames framesCount) ''Frames must be an integer between 1 and 50.'' of
        Inl e \<Rightarrow> Inl e
      | Inr _ \<Rightarrow>
     (case assert (length refs > 0) ''Reference string cannot be empty.'' of
        Inl e \<Rightarrow> Inl e
      | Inr _ \<Rightarrow>
          if algoName = ''FIFO'' then Inr (simulateFIFO (framesOf framesCount) refs)
          else if algoName = ''LRU'' then Inr (simulateLRU (framesOf framesCount) refs)
          else if algoName = ''OPT'' then Inr (simulateOPT (framesOf framesCount) refs)
          else if algoName = ''CLOCK'' then simulateCLOCK (framesOf framesCount) refs
          else Inl (Error (''Unknown algorithm: '' @ algoName))))"


section \<open>Notions used in the statements\<close>

text \<open>
  The definitions of this section are not code of the simulator: they name the
  invariants of the four loops and the notions that the properties are stated in.
  \<open>pages_distinct\<close> says that no page occupies two frames; \<open>trace_inv\<close> is what
  every engine keeps true of its frames, counters and steps after \<open>n\<close> references;
  \<open>clock_cleared\<close> is the bit vector after \<open>k\<close> iterations of the CLOCK scan that
  all found a set bit; \<open>frames_after\<close> is the frame table of an engine once the
  references \<open>0..i\<close> are processed. The order on \<open>ext\<close> is the comparison
  \<open>ext_less\<close> of the scans.
\<close>

text \<open>
  The three errors that \<open>simulate\<close> throws, under the names that the specification
  gives to their kinds; in the code each is an \<^verbatim>\<open>Error\<close> with a message of its own.
\<close>

definition InvalidCapacity :: error where
  "InvalidCapacity = Error ''Frames must be an integer between 1 and 50.''"

definition EmptyReferenceSequence :: error where
  "EmptyReferenceSequence = Error ''Reference string cannot be empty.''"

definition UnknownPolicy :: "string \<Rightarrow> error" where
  "UnknownPolicy algoName = Error (''Unknown algorithm: '' @ algoName)"

definition pages_distinct :: "slot list \<Rightarrow> bool" where
  "pages_distinct fr = distinct (filter (\<lambda>s. s \<noteq> None) fr)"

definition trace_inv :: "nat \<Rightarrow> page list \<Rightarrow> nat \<Rightarrow> slot list \<Rightarrow> nat \<Rightarrow> nat \<Rightarrow> step list \<Rightarrow> bool" where
  "trace_inv fc refs n fr h f ss \<longleftrightarrow>
     length ss = n \<and> length fr = fc \<and> pages_distinct fr \<and>
     (\<forall>s \<in> set ss. hit s \<noteq> fault s \<and> length (frames s) = fc \<and> pages_distinct (frames s)) \<and>
     h = length (filter hit ss) \<and> f = length (filter fault ss) \<and>
     (\<forall>i<n. index (ss ! i) = i \<and> page (ss ! i) = refs ! i) \<and>
     (ss \<noteq> [] \<longrightarrow> frames (last ss) = fr)"

definition fifo_inv :: "nat \<Rightarrow> page list \<Rightarrow> nat \<Rightarrow> fifo_state \<Rightarrow> bool" where
  "fifo_inv fc refs n st \<longleftrightarrow>
     trace_inv fc refs n (fifo_frames st) (fifo_hits st) (fifo_faults st) (fifo_steps st) \<and>
     fifo_pointer st < fc"

instantiation ext :: linorder
begin

definition less_ext :: "ext \<Rightarrow> ext \<Rightarrow> bool" where
  "less_ext a b \<longleftrightarrow> ext_less a b"

definition less_eq_ext :: "ext \<Rightarrow> ext \<Rightarrow> bool" where
  "less_eq_ext a b \<longleftrightarrow> ext_less a b \<or> a = b"

instance
proof
  fix x y z :: ext
  show "(x < y) = (x \<le> y \<and> \<not> y \<le> x)"
    by (cases x; cases y) (auto simp: less_ext_def less_eq_ext_def)
  show "x \<le> x"
    by (simp add: less_eq_ext_def)
  show "x \<le> y \<Longrightarrow> y \<le> z \<Longrightarrow> x \<le> z"
    by (cases x; cases y; cases z) (auto simp: less_eq_ext_def)
  show "x \<le> y \<Longrightarrow> y \<le> x \<Longrightarrow> x = y"
    by (cases x; cases y) (auto simp: less_eq_ext_def)
  show "x \<le> y \<or> y \<le> x"
    by (cases x; cases y) (auto simp: less_eq_ext_def)
qed

end

definition lru_inv :: "nat \<Rightarrow> page list \<Rightarrow> nat \<Rightarrow> lru_state \<Rightarrow> bool" where
  "lru_inv fc refs n st \<longleftrightarrow>
     trace_inv fc refs n (lru_frames st) (lru_hits st) (lru_faults st) (lru_steps st) \<and>
     dom (lru_lastUsed st) = set (lru_frames st) - {None}"

definition opt_inv :: "nat \<Rightarrow> page list \<Rightarrow> nat \<Rightarrow> opt_state \<Rightarrow> bool" where
  "opt_inv fc refs n st \<longleftrightarrow>
     trace_inv fc refs n (opt_frames st) (opt_hits st) (opt_faults st) (opt_steps st)"

fun clock_cleared :: "nat \<Rightarrow> nat list \<Rightarrow> nat \<Rightarrow> nat \<Rightarrow> nat list" where
  "clock_cleared fc bits hnd 0 = bits"
| "clock_cleared fc bits hnd (Suc k) = clock_cleared fc (bits[hnd := 0]) ((hnd + 1) mod fc) k"

definition bits01 :: "nat list \<Rightarrow> bool" where
  "bits01 bits \<longleftrightarrow> set bits \<subseteq> {0, 1}"

definition clock_inv :: "nat \<Rightarrow> page list \<Rightarrow> nat \<Rightarrow> clock_state \<Rightarrow> bool" where
  "clock_inv fc refs n st \<longleftrightarrow>
     trace_inv fc refs n (clock_frames st) (clock_hits st) (clock_faults st) (clock_steps st) \<and>
     length (clock_refBits st) = fc \<and> bits01 (clock_refBits st) \<and> clock_hand st < fc"

definition frames_after :: "string \<Rightarrow> nat \<Rightarrow> page list \<Rightarrow> nat \<Rightarrow> slot list" where
  "frames_after algoName fc refs i =
     (if algoName = ''FIFO'' then fifo_frames (fifo_run fc refs (Suc i))
      else if algoName = ''LRU'' then lru_frames (lru_run fc refs (Suc i))
      else if algoName = ''OPT'' then opt_frames (opt_run fc refs (Suc i))
      else (case clock_run fc refs (Suc i) of Inr st \<Rightarrow> clock_frames st | Inl e \<Rightarrow> []))"

text \<open>
  The state of the loop of \<^verbatim>\<open>simulateCLOCK\<close> when \<open>i\<close> has reached \<open>n\<close>, as a total
  function; with at least one frame the loop does not throw (\<open>clock_inv_run\<close>).
\<close>

definition clock_state_at :: "nat \<Rightarrow> page list \<Rightarrow> nat \<Rightarrow> clock_state" where
  "clock_state_at fc refs n =
     (case clock_run fc refs n of Inr st \<Rightarrow> st | Inl e \<Rightarrow> clock_init fc)"

definition trace_facts :: "nat \<Rightarrow> page list \<Rightarrow> result \<Rightarrow> bool" where
  "trace_facts fc refs r \<longleftrightarrow>
     length (steps r) = length refs \<and>
     (\<forall>i<length refs. index (steps r ! i) = i \<and> page (steps r ! i) = refs ! i \<and>
        hit (steps r ! i) \<noteq> fault (steps r ! i) \<and>
        length (frames (steps r ! i)) = fc \<and> pages_distinct (frames (steps r ! i))) \<and>
     hits (summary r) = length (filter hit (steps r)) \<and>
     faults (summary r) = length (filter fault (steps r)) \<and>
     hits (summary r) + faults (summary r) = length refs"

text \<open>
  The next use of the occupant of a frame after position \<open>i\<close>, in the words of the
  specification: the smallest index \<open>j > i\<close> at which it is referenced again, and
  infinity when there is none.
\<close>

definition next_use_spec :: "page list \<Rightarrow> nat \<Rightarrow> slot \<Rightarrow> ext" where
  "next_use_spec refs i pg =
     (case filter (\<lambda>j. Some (refs ! j) = pg) [i + 1..<length refs] of
        [] \<Rightarrow> Infinity
      | j # js \<Rightarrow> Fin (int j))"

text \<open>
  Demand paging over sets of resident pages, for the comparison of OPT with the other
  engines: \<open>sched k S r n\<close> says that from the resident set \<open>S\<close>, with \<open>k\<close> frames, the
  references \<open>r\<close> can be served with \<open>n\<close> faults, loading a page only when it is
  referenced and missing, and evicting (any resident page) only when the set is full.
\<close>

inductive sched :: "nat \<Rightarrow> 'a set \<Rightarrow> 'a list \<Rightarrow> nat \<Rightarrow> bool" where
  sched_Nil: "sched k S [] 0"
| sched_hit: "p \<in> S \<Longrightarrow> sched k S r n \<Longrightarrow> sched k S (p # r) n"
| sched_fill: "p \<notin> S \<Longrightarrow> card S < k \<Longrightarrow> sched k (insert p S) r n \<Longrightarrow> sched k S (p # r) (Suc n)"
| sched_evict: "p \<notin> S \<Longrightarrow> card S = k \<Longrightarrow> z \<in> S \<Longrightarrow> sched k (insert p (S - {z})) r n \<Longrightarrow>
     sched k S (p # r) (Suc n)"

text \<open>The distance to the next reference of \<open>x\<close> in \<open>r\<close>; the length of \<open>r\<close> when there is none.\<close>

fun nxt :: "'a \<Rightarrow> 'a list \<Rightarrow> nat" where
  "nxt x [] = 0"
| "nxt x (y # r) = (if x = y then 0 else Suc (nxt x r))"

text \<open>The pages that a frame table holds.\<close>

definition pages :: "slot list \<Rightarrow> page set" where
  "pages fr = {q. Some q \<in> set fr}"

text \<open>
  What the loop bodies of all four engines do to the frame table and the fault counter
  on a reference to \<open>p\<close>: nothing on a hit; on a fault, count it and put \<open>p\<close> into the
  lowest empty frame, or into some frame \<open>v\<close> when none is empty.
\<close>

definition demand_step :: "nat \<Rightarrow> page \<Rightarrow> slot list \<Rightarrow> nat \<Rightarrow> slot list \<Rightarrow> nat \<Rightarrow> bool" where
  "demand_step k p fr f fr' f' \<longleftrightarrow>
     (case indexOf fr (Some p) of
        Some h \<Rightarrow> fr' = fr \<and> f' = f
      | None \<Rightarrow> f' = Suc f \<and>
          (case indexOf fr None of
             Some e \<Rightarrow> fr' = fr[e := Some p]
           | None \<Rightarrow> (\<exists>v<k. fr' = fr[v := Some p])))"

section \<open>Lemmas\<close>

subsection \<open>Lists and frame tables\<close>

lemma indexOf_None_iff: "indexOf xs x = None \<longleftrightarrow> x \<notin> set xs"
  by (induction xs) auto

lemma indexOf_SomeD:
  "indexOf xs x = Some k \<Longrightarrow> k < length xs \<and> xs ! k = x \<and> (\<forall>j<k. xs ! j \<noteq> x)"
proof (induction xs arbitrary: k)
  case Nil
  then show ?case by simp
next
  case (Cons y ys)
  show ?case
  proof (cases "y = x")
    case True
    with Cons.prems show ?thesis by simp
  next
    case False
    with Cons.prems obtain k' where k': "indexOf ys x = Some k'" "k = Suc k'"
      by auto
    from Cons.IH [OF k'(1)] False k'(2) show ?thesis
      by (auto simp: nth_Cons split: nat.splits)
  qed
qed

lemma pages_distinct_update:
  "pages_distinct fr \<Longrightarrow> Some p \<notin> set fr \<Longrightarrow> pages_distinct (fr[k := Some p])"
  unfolding pages_distinct_def
proof (induction fr arbitrary: k)
  case Nil
  then show ?case by simp
next
  case (Cons a fr)
  show ?case
  proof (cases k)
    case 0
    with Cons.prems show ?thesis by (auto split: if_splits)
  next
    case (Suc k')
    have "set (fr[k' := Some p]) \<subseteq> insert (Some p) (set fr)"
      by (rule set_update_subset_insert)
    with Cons Suc show ?thesis by (auto split: if_splits)
  qed
qed

lemma pages_distinct_replicate: "pages_distinct (replicate n None)"
  by (simp add: pages_distinct_def)

lemma trace_inv_init: "trace_inv fc refs 0 (array_fill fc None) 0 0 []"
  by (simp add: trace_inv_def array_fill_def pages_distinct_replicate)

lemma trace_inv_snoc:
  assumes "trace_inv fc refs n fr h f ss"
    and "length fr' = fc" and "pages_distinct fr'"
    and "hit s \<noteq> fault s" and "frames s = fr'" and "index s = n" and "page s = refs ! n"
    and "h' = h + (if hit s then 1 else 0)" and "f' = f + (if fault s then 1 else 0)"
  shows "trace_inv fc refs (Suc n) fr' h' f' (ss @ [s])"
  using assms by (auto simp: trace_inv_def nth_append less_Suc_eq)

subsection \<open>The invariant of FIFO\<close>

lemma fifo_inv_init: "0 < fc \<Longrightarrow> fifo_inv fc refs 0 (fifo_init fc)"
  by (simp add: fifo_inv_def fifo_init_def trace_inv_init)

lemma fifo_step_hit:
  "indexOf (fifo_frames st) (Some (refs ! i)) = Some hitIndex \<Longrightarrow>
   fifo_step fc refs st i =
     st\<lparr>fifo_hits := fifo_hits st + 1,
        fifo_steps := fifo_steps st @
          [\<lparr>index = i, page = refs ! i, frames = fifo_frames st, hit = True, fault = False,
            replaced = None, replacedIndex = None, meta = None\<rparr>]\<rparr>"
  by (simp add: fifo_step_def makeStep_def cloneArray_def)

lemma fifo_step_fill:
  "indexOf (fifo_frames st) (Some (refs ! i)) = None \<Longrightarrow>
   indexOf (fifo_frames st) None = Some emptyIndex \<Longrightarrow>
   fifo_step fc refs st i =
     st\<lparr>fifo_frames := (fifo_frames st)[emptyIndex := Some (refs ! i)],
        fifo_faults := fifo_faults st + 1,
        fifo_steps := fifo_steps st @
          [\<lparr>index = i, page = refs ! i,
            frames = (fifo_frames st)[emptyIndex := Some (refs ! i)],
            hit = False, fault = True,
            replaced = None, replacedIndex = None, meta = None\<rparr>]\<rparr>"
  by (simp add: fifo_step_def makeStep_def cloneArray_def Let_def)

lemma fifo_step_evict:
  "indexOf (fifo_frames st) (Some (refs ! i)) = None \<Longrightarrow>
   indexOf (fifo_frames st) None = None \<Longrightarrow>
   fifo_step fc refs st i =
     st\<lparr>fifo_frames := (fifo_frames st)[fifo_pointer st := Some (refs ! i)],
        fifo_pointer := (fifo_pointer st + 1) mod fc,
        fifo_faults := fifo_faults st + 1,
        fifo_steps := fifo_steps st @
          [\<lparr>index = i, page = refs ! i,
            frames = (fifo_frames st)[fifo_pointer st := Some (refs ! i)],
            hit = False, fault = True,
            replaced = fifo_frames st ! fifo_pointer st,
            replacedIndex = Some (int (fifo_pointer st)), meta = None\<rparr>]\<rparr>"
  by (simp add: fifo_step_def makeStep_def cloneArray_def Let_def)

lemma fifo_inv_step:
  assumes "fifo_inv fc refs n st"
  shows "fifo_inv fc refs (Suc n) (fifo_step fc refs st n)"
proof -
  let ?fr = "fifo_frames st" and ?p = "refs ! n"
  from assms have tr: "trace_inv fc refs n ?fr (fifo_hits st) (fifo_faults st) (fifo_steps st)"
    and ptr: "fifo_pointer st < fc"
    by (simp_all add: fifo_inv_def)
  from tr have len: "length ?fr = fc" and dist: "pages_distinct ?fr"
    by (simp_all add: trace_inv_def)
  show ?thesis
  proof (cases "indexOf ?fr (Some ?p)")
    case (Some hitIndex)
    then show ?thesis using ptr
      by (simp add: fifo_step_hit fifo_inv_def trace_inv_snoc [OF tr len dist])
  next
    case miss: None
    then have notin: "Some ?p \<notin> set ?fr"
      by (simp add: indexOf_None_iff)
    show ?thesis
    proof (cases "indexOf ?fr None")
      case (Some emptyIndex)
      then show ?thesis using ptr miss
        by (simp add: fifo_step_fill fifo_inv_def
              trace_inv_snoc [OF tr] len pages_distinct_update [OF dist notin])
    next
      case None
      then show ?thesis using ptr miss
        by (simp add: fifo_step_evict fifo_inv_def
              trace_inv_snoc [OF tr] len pages_distinct_update [OF dist notin])
    qed
  qed
qed

lemma fifo_run_Suc: "fifo_run fc refs (Suc n) = fifo_step fc refs (fifo_run fc refs n) n"
  by (simp add: fifo_run_def)

lemma fifo_inv_run: "0 < fc \<Longrightarrow> fifo_inv fc refs n (fifo_run fc refs n)"
proof (induction n)
  case 0
  then show ?case by (simp add: fifo_run_def fifo_inv_init)
next
  case (Suc n)
  then show ?case by (simp add: fifo_run_Suc fifo_inv_step)
qed

lemma fifo_steps_step: "\<exists>s. fifo_steps (fifo_step fc refs st i) = fifo_steps st @ [s]"
  by (simp add: fifo_step_def Let_def split: option.splits)

subsection \<open>The order of the scan numbers, and the scans of LRU and OPT\<close>

lemma ext_less_iff: "ext_less a b \<longleftrightarrow> a < b"
  by (simp add: less_ext_def)

lemma Fin_less_iff [simp]: "Fin a < Fin b \<longleftrightarrow> a < b"
  by (simp add: less_ext_def)

lemma Fin_le_iff [simp]: "Fin a \<le> Fin b \<longleftrightarrow> a \<le> b"
  by (auto simp: less_eq_ext_def)

lemma Fin_less_Infinity [simp]: "Fin a < Infinity"
  by (simp add: less_ext_def)

lemma NegInfinity_less_Infinity [simp]: "NegInfinity < Infinity"
  by (simp add: less_ext_def)

lemma le_Infinity [simp]: "a \<le> Infinity"
  by (cases a) (simp_all add: less_eq_ext_def)

lemma lru_time_less_Infinity: "lru_time lastUsed pg < Infinity"
  by (simp add: lru_time_def split: option.splits)

lemma lru_scan_first_min:
  assumes "0 < n"
  shows "\<exists>v<n. lru_scan n fr lastUsed = (int v, fr ! v, lru_time lastUsed (fr ! v)) \<and>
           (\<forall>fi<n. lru_time lastUsed (fr ! v) \<le> lru_time lastUsed (fr ! fi)) \<and>
           (\<forall>fi<v. lru_time lastUsed (fr ! v) < lru_time lastUsed (fr ! fi))"
  using assms
proof (induction n)
  case 0
  then show ?case by simp
next
  case (Suc n)
  let ?t = "\<lambda>fi. lru_time lastUsed (fr ! fi)"
  have unfold: "lru_scan (Suc n) fr lastUsed = lru_scan_body fr lastUsed (lru_scan n fr lastUsed) n"
    by (simp add: lru_scan_def)
  show ?case
  proof (cases "n = 0")
    case True
    then show ?thesis
      by (simp add: lru_scan_def lru_scan_body_def ext_less_iff lru_time_less_Infinity Let_def)
  next
    case False
    with Suc.IH obtain v where v: "v < n"
      "lru_scan n fr lastUsed = (int v, fr ! v, ?t v)"
      "\<forall>fi<n. ?t v \<le> ?t fi" "\<forall>fi<v. ?t v < ?t fi"
      by auto
    show ?thesis
    proof (cases "?t n < ?t v")
      case True
      with v have "lru_scan (Suc n) fr lastUsed = (int n, fr ! n, ?t n)"
        by (simp add: unfold lru_scan_body_def ext_less_iff Let_def)
      moreover from True v(3) have "\<forall>fi<Suc n. ?t n \<le> ?t fi"
        by (auto simp: less_Suc_eq intro: less_imp_le less_le_trans)
      moreover from True v(3) have "\<forall>fi<n. ?t n < ?t fi"
        by (auto intro: less_le_trans)
      ultimately show ?thesis by blast
    next
      case False
      with v have "lru_scan (Suc n) fr lastUsed = (int v, fr ! v, ?t v)"
        by (simp add: unfold lru_scan_body_def ext_less_iff Let_def)
      moreover from False v(3) have "\<forall>fi<Suc n. ?t v \<le> ?t fi"
        by (auto simp: less_Suc_eq)
      ultimately show ?thesis using v(1,4) by (intro exI [of _ v]) simp
    qed
  qed
qed

lemma nextUse_from_cases:
  "(nextUse_from refs pg j = Infinity \<and> (\<forall>l. j \<le> l \<and> l < length refs \<longrightarrow> Some (refs ! l) \<noteq> pg)) \<or>
   (\<exists>k. nextUse_from refs pg j = Fin (int k) \<and> j \<le> k \<and> k < length refs \<and> Some (refs ! k) = pg \<and>
        (\<forall>l. j \<le> l \<and> l < k \<longrightarrow> Some (refs ! l) \<noteq> pg))"
proof (induction refs pg j rule: nextUse_from.induct)
  case (1 refs pg j)
  show ?case
  proof (cases "j < length refs")
    case False
    then show ?thesis by (auto simp: nextUse_from.simps [of refs pg j])
  next
    case inr: True
    show ?thesis
    proof (cases "Some (refs ! j) = pg")
      case True
      with inr have "nextUse_from refs pg j = Fin (int j)"
        by (simp add: nextUse_from.simps [of refs pg j])
      with inr True show ?thesis by auto
    next
      case False
      with inr have eq: "nextUse_from refs pg j = nextUse_from refs pg (j + 1)"
        by (simp add: nextUse_from.simps [of refs pg j])
      have step: "\<And>l. j \<le> l \<Longrightarrow> l = j \<or> j + 1 \<le> l" by auto
      from "1.IH" [OF inr False] show ?thesis
      proof
        assume a: "nextUse_from refs pg (j + 1) = Infinity \<and>
          (\<forall>l. j + 1 \<le> l \<and> l < length refs \<longrightarrow> Some (refs ! l) \<noteq> pg)"
        have "\<forall>l. j \<le> l \<and> l < length refs \<longrightarrow> Some (refs ! l) \<noteq> pg"
          using a False step by blast
        with a eq show ?thesis by simp
      next
        assume "\<exists>k. nextUse_from refs pg (j + 1) = Fin (int k) \<and> j + 1 \<le> k \<and> k < length refs \<and>
          Some (refs ! k) = pg \<and> (\<forall>l. j + 1 \<le> l \<and> l < k \<longrightarrow> Some (refs ! l) \<noteq> pg)"
        then obtain k where k: "nextUse_from refs pg (j + 1) = Fin (int k)" "j + 1 \<le> k"
          "k < length refs" "Some (refs ! k) = pg"
          "\<forall>l. j + 1 \<le> l \<and> l < k \<longrightarrow> Some (refs ! l) \<noteq> pg"
          by blast
        have "\<forall>l. j \<le> l \<and> l < k \<longrightarrow> Some (refs ! l) \<noteq> pg"
          using k(5) False step by blast
        with k eq show ?thesis by (intro disjI2 exI [of _ k]) simp
      qed
    qed
  qed
qed

lemma nextUse_from_lower: "Fin (- 1) < nextUse_from refs pg j"
  using nextUse_from_cases [of refs pg j] by auto

lemma opt_scan_first_max:
  assumes "0 < n"
  shows "\<exists>v<n. opt_scan n refs i fr =
              (v, fr ! v, nextUse_from refs (fr ! v) (i + 1)) \<and>
           (\<forall>fi<n. nextUse_from refs (fr ! fi) (i + 1) \<le> nextUse_from refs (fr ! v) (i + 1)) \<and>
           (\<forall>fi<v. nextUse_from refs (fr ! fi) (i + 1) < nextUse_from refs (fr ! v) (i + 1))"
  using assms
proof (induction n)
  case 0
  then show ?case by simp
next
  case (Suc n)
  let ?t = "\<lambda>fi. nextUse_from refs (fr ! fi) (i + 1)"
  have unfold: "opt_scan (Suc n) refs i fr = opt_scan_body refs i fr (opt_scan n refs i fr) n"
    by (simp add: opt_scan_def)
  show ?case
  proof (cases "n = 0")
    case True
    then show ?thesis
      by (simp add: opt_scan_def opt_scan_body_def ext_less_iff nextUse_from_lower Let_def)
  next
    case False
    with Suc.IH obtain v where v: "v < n"
      "opt_scan n refs i fr = (v, fr ! v, ?t v)"
      "\<forall>fi<n. ?t fi \<le> ?t v" "\<forall>fi<v. ?t fi < ?t v"
      by auto
    show ?thesis
    proof (cases "?t v < ?t n")
      case True
      with v have "opt_scan (Suc n) refs i fr = (n, fr ! n, ?t n)"
        by (simp add: unfold opt_scan_body_def ext_less_iff Let_def)
      moreover from True v(3) have "\<forall>fi<Suc n. ?t fi \<le> ?t n"
        by (auto simp: less_Suc_eq intro: less_imp_le le_less_trans)
      moreover from True v(3) have "\<forall>fi<n. ?t fi < ?t n"
        by (auto intro: le_less_trans)
      ultimately show ?thesis by blast
    next
      case False
      with v have "opt_scan (Suc n) refs i fr = (v, fr ! v, ?t v)"
        by (simp add: unfold opt_scan_body_def ext_less_iff Let_def)
      moreover from False v(3) have "\<forall>fi<Suc n. ?t fi \<le> ?t v"
        by (auto simp: less_Suc_eq)
      ultimately show ?thesis using v(1,4) by (intro exI [of _ v]) simp
    qed
  qed
qed

subsection \<open>The invariant of LRU\<close>

lemma set_update_fill:
  "e < length fr \<Longrightarrow> fr ! e = None \<Longrightarrow>
   set (fr[e := Some p]) - {None} = insert (Some p) (set fr - {None})"
proof (induction fr arbitrary: e)
  case Nil
  then show ?case by simp
next
  case (Cons a fr)
  then show ?case by (cases e) auto
qed

lemma full_distinct: "pages_distinct fr \<Longrightarrow> None \<notin> set fr \<Longrightarrow> distinct fr"
proof -
  assume a: "pages_distinct fr" "None \<notin> set fr"
  from a(2) have "filter (\<lambda>s. s \<noteq> None) fr = fr"
    by (intro filter_True) (metis not_None_eq)
  with a(1) show ?thesis by (simp add: pages_distinct_def)
qed

lemma set_update_evict:
  assumes "pages_distinct fr" "None \<notin> set fr" "v < length fr"
  shows "set (fr[v := Some p]) - {None} = insert (Some p) (set fr - {None} - {fr ! v})"
proof -
  have "distinct fr" using assms by (simp add: full_distinct)
  then have "set (fr[v := Some p]) = insert (Some p) (set fr - {fr ! v})"
    using assms(3) by (rule set_update_distinct)
  then show ?thesis by auto
qed

lemma lru_step_hit:
  "indexOf (lru_frames st) (Some (refs ! i)) = Some hitIndex \<Longrightarrow>
   lru_step fc refs st i =
     st\<lparr>lru_lastUsed := (lru_lastUsed st)(Some (refs ! i) \<mapsto> i),
        lru_hits := lru_hits st + 1,
        lru_steps := lru_steps st @
          [\<lparr>index = i, page = refs ! i, frames = lru_frames st, hit = True, fault = False,
            replaced = None, replacedIndex = None, meta = None\<rparr>]\<rparr>"
  by (simp add: lru_step_def makeStep_def cloneArray_def Let_def)

lemma lru_step_fill:
  "indexOf (lru_frames st) (Some (refs ! i)) = None \<Longrightarrow>
   indexOf (lru_frames st) None = Some emptyIndex \<Longrightarrow>
   lru_step fc refs st i =
     st\<lparr>lru_frames := (lru_frames st)[emptyIndex := Some (refs ! i)],
        lru_lastUsed := (lru_lastUsed st)(Some (refs ! i) \<mapsto> i),
        lru_faults := lru_faults st + 1,
        lru_steps := lru_steps st @
          [\<lparr>index = i, page = refs ! i,
            frames = (lru_frames st)[emptyIndex := Some (refs ! i)],
            hit = False, fault = True,
            replaced = None, replacedIndex = None, meta = None\<rparr>]\<rparr>"
  by (simp add: lru_step_def makeStep_def cloneArray_def Let_def)

lemma lru_step_evict:
  "indexOf (lru_frames st) (Some (refs ! i)) = None \<Longrightarrow>
   indexOf (lru_frames st) None = None \<Longrightarrow>
   lru_scan fc (lru_frames st) (lru_lastUsed st) = (int v, pg, t) \<Longrightarrow>
   lru_step fc refs st i =
     st\<lparr>lru_frames := (lru_frames st)[v := Some (refs ! i)],
        lru_lastUsed := ((lru_lastUsed st)(pg := None))(Some (refs ! i) \<mapsto> i),
        lru_faults := lru_faults st + 1,
        lru_steps := lru_steps st @
          [\<lparr>index = i, page = refs ! i,
            frames = (lru_frames st)[v := Some (refs ! i)],
            hit = False, fault = True,
            replaced = pg, replacedIndex = Some (int v), meta = None\<rparr>]\<rparr>"
  by (simp add: lru_step_def makeStep_def cloneArray_def Let_def array_set_def)

lemma lru_inv_init: "lru_inv fc refs 0 (lru_init fc)"
proof -
  have "set (array_fill fc (None :: slot)) - {None} = {}"
    by (auto simp: array_fill_def)
  then show ?thesis
    by (simp add: lru_inv_def lru_init_def trace_inv_init)
qed

lemma lru_inv_step:
  assumes "lru_inv fc refs n st" and "0 < fc"
  shows "lru_inv fc refs (Suc n) (lru_step fc refs st n)"
proof -
  let ?fr = "lru_frames st" and ?p = "refs ! n"
  from assms have tr: "trace_inv fc refs n ?fr (lru_hits st) (lru_faults st) (lru_steps st)"
    and dm: "dom (lru_lastUsed st) = set ?fr - {None}"
    by (simp_all add: lru_inv_def)
  from tr have len: "length ?fr = fc" and dist: "pages_distinct ?fr"
    by (simp_all add: trace_inv_def)
  show ?thesis
  proof (cases "indexOf ?fr (Some ?p)")
    case (Some hitIndex)
    then have "Some ?p \<in> set ?fr"
      using indexOf_None_iff [of ?fr "Some ?p"] by simp
    with dm have "insert (Some ?p) (set ?fr - {None}) = set ?fr - {None}"
      by auto
    with Some dm show ?thesis
      by (simp add: lru_step_hit lru_inv_def trace_inv_snoc [OF tr len dist])
  next
    case miss: None
    then have notin: "Some ?p \<notin> set ?fr"
      by (simp add: indexOf_None_iff)
    show ?thesis
    proof (cases "indexOf ?fr None")
      case (Some emptyIndex)
      from indexOf_SomeD [OF Some] have e: "emptyIndex < length ?fr" "?fr ! emptyIndex = None"
        by simp_all
      from Some miss dm show ?thesis
        by (simp add: lru_step_fill lru_inv_def set_update_fill [OF e]
              trace_inv_snoc [OF tr] len pages_distinct_update [OF dist notin])
    next
      case None
      then have full: "None \<notin> set ?fr" by (simp add: indexOf_None_iff)
      from lru_scan_first_min [OF assms(2), of ?fr "lru_lastUsed st"]
      obtain v where v: "v < fc"
        "lru_scan fc ?fr (lru_lastUsed st) = (int v, ?fr ! v, lru_time (lru_lastUsed st) (?fr ! v))"
        by blast
      have "dom (((lru_lastUsed st)(?fr ! v := None))(Some ?p \<mapsto> n)) =
            set (?fr[v := Some ?p]) - {None}"
        using dm v(1) len by (simp add: set_update_evict [OF dist full])
      with miss None show ?thesis
        by (simp add: lru_step_evict [OF miss None v(2)] lru_inv_def
              trace_inv_snoc [OF tr] len pages_distinct_update [OF dist notin])
    qed
  qed
qed

lemma lru_run_Suc: "lru_run fc refs (Suc n) = lru_step fc refs (lru_run fc refs n) n"
  by (simp add: lru_run_def)

lemma lru_inv_run: "0 < fc \<Longrightarrow> lru_inv fc refs n (lru_run fc refs n)"
proof (induction n)
  case 0
  then show ?case by (simp add: lru_run_def lru_inv_init)
next
  case (Suc n)
  then show ?case by (simp add: lru_run_Suc lru_inv_step)
qed

subsection \<open>The invariant of OPT\<close>

lemma opt_step_hit:
  "indexOf (opt_frames st) (Some (refs ! i)) = Some hitIndex \<Longrightarrow>
   opt_step fc refs st i =
     st\<lparr>opt_hits := opt_hits st + 1,
        opt_steps := opt_steps st @
          [\<lparr>index = i, page = refs ! i, frames = opt_frames st, hit = True, fault = False,
            replaced = None, replacedIndex = None, meta = None\<rparr>]\<rparr>"
  by (simp add: opt_step_def makeStep_def cloneArray_def)

lemma opt_step_fill:
  "indexOf (opt_frames st) (Some (refs ! i)) = None \<Longrightarrow>
   indexOf (opt_frames st) None = Some emptyIndex \<Longrightarrow>
   opt_step fc refs st i =
     st\<lparr>opt_frames := (opt_frames st)[emptyIndex := Some (refs ! i)],
        opt_faults := opt_faults st + 1,
        opt_steps := opt_steps st @
          [\<lparr>index = i, page = refs ! i,
            frames = (opt_frames st)[emptyIndex := Some (refs ! i)],
            hit = False, fault = True,
            replaced = None, replacedIndex = None, meta = None\<rparr>]\<rparr>"
  by (simp add: opt_step_def makeStep_def cloneArray_def Let_def)

lemma opt_step_evict:
  "indexOf (opt_frames st) (Some (refs ! i)) = None \<Longrightarrow>
   indexOf (opt_frames st) None = None \<Longrightarrow>
   opt_scan fc refs i (opt_frames st) = (v, pg, t) \<Longrightarrow>
   opt_step fc refs st i =
     st\<lparr>opt_frames := (opt_frames st)[v := Some (refs ! i)],
        opt_faults := opt_faults st + 1,
        opt_steps := opt_steps st @
          [\<lparr>index = i, page = refs ! i,
            frames = (opt_frames st)[v := Some (refs ! i)],
            hit = False, fault = True,
            replaced = pg, replacedIndex = Some (int v), meta = None\<rparr>]\<rparr>"
  by (simp add: opt_step_def makeStep_def cloneArray_def Let_def)

lemma opt_inv_init: "opt_inv fc refs 0 (opt_init fc)"
  by (simp add: opt_inv_def opt_init_def trace_inv_init)

lemma opt_inv_step:
  assumes "opt_inv fc refs n st"
  shows "opt_inv fc refs (Suc n) (opt_step fc refs st n)"
proof -
  let ?fr = "opt_frames st" and ?p = "refs ! n"
  from assms have tr: "trace_inv fc refs n ?fr (opt_hits st) (opt_faults st) (opt_steps st)"
    by (simp_all add: opt_inv_def)
  from tr have len: "length ?fr = fc" and dist: "pages_distinct ?fr"
    by (simp_all add: trace_inv_def)
  show ?thesis
  proof (cases "indexOf ?fr (Some ?p)")
    case (Some hitIndex)
    then show ?thesis
      by (simp add: opt_step_hit opt_inv_def trace_inv_snoc [OF tr len dist])
  next
    case miss: None
    then have notin: "Some ?p \<notin> set ?fr"
      by (simp add: indexOf_None_iff)
    show ?thesis
    proof (cases "indexOf ?fr None")
      case (Some emptyIndex)
      with miss show ?thesis
        by (simp add: opt_step_fill opt_inv_def
              trace_inv_snoc [OF tr] len pages_distinct_update [OF dist notin])
    next
      case None
      obtain v pg t where sc: "opt_scan fc refs n ?fr = (v, pg, t)"
        by (cases "opt_scan fc refs n ?fr") auto
      show ?thesis
        by (simp add: opt_step_evict [OF miss None sc] opt_inv_def
              trace_inv_snoc [OF tr] len pages_distinct_update [OF dist notin])
    qed
  qed
qed

lemma opt_run_Suc: "opt_run fc refs (Suc n) = opt_step fc refs (opt_run fc refs n) n"
  by (simp add: opt_run_def)

lemma opt_inv_run: "opt_inv fc refs n (opt_run fc refs n)"
proof (induction n)
  case 0
  then show ?case by (simp add: opt_run_def opt_inv_init)
next
  case (Suc n)
  then show ?case by (simp add: opt_run_Suc opt_inv_step)
qed

subsection \<open>The scan and the invariant of CLOCK\<close>

lemma clock_cleared_length [simp]: "length (clock_cleared fc bits hnd k) = length bits"
  by (induction k arbitrary: bits hnd) simp_all

lemma clock_cleared_zero:
  "x < length bits \<Longrightarrow> bits ! x = 0 \<Longrightarrow> clock_cleared fc bits hnd k ! x = 0"
proof (induction k arbitrary: bits hnd)
  case 0
  then show ?case by simp
next
  case (Suc k)
  have "bits[hnd := 0] ! x = 0"
    using Suc.prems by (cases "hnd < length bits") (simp_all add: nth_list_update)
  with Suc show ?case by simp
qed

lemma mod_shift: "(Suc hnd mod fc + j) mod fc = Suc (hnd + j) mod fc"
  by (metis add_Suc mod_add_left_eq)

lemma clock_cleared_nth:
  assumes "hnd < fc" "s < length bits"
  shows "clock_cleared fc bits hnd k ! s =
           (if \<exists>j<k. s = (hnd + j) mod fc then 0 else bits ! s)"
  using assms
proof (induction k arbitrary: bits hnd)
  case 0
  then show ?case by simp
next
  case (Suc k)
  have fc: "0 < fc" using Suc.prems by simp
  let ?h = "(hnd + 1) mod fc"
  have h: "?h < fc" using fc by simp
  have shift: "\<And>j. (?h + j) mod fc = (hnd + Suc j) mod fc"
    by (simp add: mod_shift)
  have ex: "(\<exists>j<Suc k. s = (hnd + j) mod fc) \<longleftrightarrow> s = hnd \<or> (\<exists>j<k. s = (?h + j) mod fc)"
  proof
    assume "\<exists>j<Suc k. s = (hnd + j) mod fc"
    then obtain j where j: "j < Suc k" "s = (hnd + j) mod fc" by blast
    show "s = hnd \<or> (\<exists>j<k. s = (?h + j) mod fc)"
    proof (cases j)
      case 0
      with j Suc.prems show ?thesis by simp
    next
      case (Suc j')
      with j shift [of j'] show ?thesis by auto
    qed
  next
    assume "s = hnd \<or> (\<exists>j<k. s = (?h + j) mod fc)"
    then show "\<exists>j<Suc k. s = (hnd + j) mod fc"
    proof
      assume "s = hnd"
      with Suc.prems have "s = (hnd + 0) mod fc" by simp
      then show ?thesis by blast
    next
      assume "\<exists>j<k. s = (?h + j) mod fc"
      then obtain j where "j < k" "s = (hnd + Suc j) mod fc" using shift by auto
      then show ?thesis by (intro exI [of _ "Suc j"]) simp
    qed
  qed
  have "clock_cleared fc bits hnd (Suc k) ! s =
          (if \<exists>j<k. s = (?h + j) mod fc then 0 else bits[hnd := 0] ! s)"
    using Suc.IH [OF h, of "bits[hnd := 0]"] Suc.prems by simp
  also have "\<dots> = (if \<exists>j<Suc k. s = (hnd + j) mod fc then 0 else bits ! s)"
    using Suc.prems by (auto simp: ex nth_list_update)
  finally show ?case .
qed

lemma bits01_update:
  "bits01 bits \<Longrightarrow> v = 0 \<or> v = 1 \<Longrightarrow> bits01 (bits[i := v])"
  using set_update_subset_insert [of bits i v] by (auto simp: bits01_def)

lemma bits01_cleared: "bits01 bits \<Longrightarrow> bits01 (clock_cleared fc bits hnd k)"
proof (induction k arbitrary: bits hnd)
  case 0
  then show ?case by simp
next
  case (Suc k)
  from Suc.prems have "bits01 (bits[hnd := 0])"
    by (intro bits01_update) simp_all
  then show ?case by (simp add: Suc.IH)
qed

lemma bits01_replicate: "bits01 (replicate n 0)"
  by (auto simp: bits01_def)

lemma bits01_nth: "bits01 bits \<Longrightarrow> i < length bits \<Longrightarrow> bits ! i \<noteq> 0 \<Longrightarrow> bits ! i = 1"
proof -
  assume a: "bits01 bits" "i < length bits" "bits ! i \<noteq> 0"
  from a(2) have "bits ! i \<in> set bits" by (rule nth_mem)
  with a(1) have "bits ! i \<in> {0, 1}" unfolding bits01_def by blast
  with a(3) show ?thesis by auto
qed

lemma clock_scan_finds:
  assumes "hnd < fc"
    and "\<forall>j<k. clock_cleared fc bits hnd j ! ((hnd + j) mod fc) \<noteq> 0"
    and "clock_cleared fc bits hnd k ! ((hnd + k) mod fc) = 0"
    and "scans + k \<le> fc * 5"
  shows "clock_scan fc p fr bits hnd scans =
           Inr \<lparr>ev_frames = fr[(hnd + k) mod fc := Some p],
                ev_refBits = (clock_cleared fc bits hnd k)[(hnd + k) mod fc := 1],
                ev_hand = ((hnd + k) mod fc + 1) mod fc,
                ev_victimIndex = (hnd + k) mod fc,
                ev_victimPage = fr ! ((hnd + k) mod fc),
                ev_scans = scans + k + 1\<rparr>"
  using assms
proof (induction k arbitrary: bits hnd scans)
  case 0
  then show ?case
    by (simp add: clock_scan.simps [of fc p fr bits hnd scans])
next
  case (Suc k)
  let ?h = "(hnd + 1) mod fc"
  have fc: "0 < fc" using Suc.prems by simp
  have h: "?h < fc" using fc by simp
  have shift: "\<And>j. (?h + j) mod fc = (hnd + Suc j) mod fc"
    by (simp add: mod_shift)
  from Suc.prems(2) have "clock_cleared fc bits hnd 0 ! ((hnd + 0) mod fc) \<noteq> 0"
    by blast
  then have nz: "bits ! hnd \<noteq> 0" using Suc.prems(1) by simp
  have a: "\<forall>j<k. clock_cleared fc (bits[hnd := 0]) ?h j ! ((?h + j) mod fc) \<noteq> 0"
  proof (intro allI impI)
    fix j assume "j < k"
    then have "Suc j < Suc k" by simp
    with Suc.prems(2) have "clock_cleared fc bits hnd (Suc j) ! ((hnd + Suc j) mod fc) \<noteq> 0"
      by blast
    then show "clock_cleared fc (bits[hnd := 0]) ?h j ! ((?h + j) mod fc) \<noteq> 0"
      by (simp add: mod_shift)
  qed
  have b: "clock_cleared fc (bits[hnd := 0]) ?h k ! ((?h + k) mod fc) = 0"
    using Suc.prems(3) by (simp add: mod_shift)
  have c: "(scans + 1) + k \<le> fc * 5" using Suc.prems(4) by simp
  have "clock_scan fc p fr bits hnd scans = clock_scan fc p fr (bits[hnd := 0]) ?h (scans + 1)"
    using nz Suc.prems(4) by (simp add: clock_scan.simps [of fc p fr bits hnd scans] Let_def)
  also note Suc.IH [OF h a b c]
  finally show ?case by (simp add: mod_shift)
qed

lemma clock_first_zero:
  assumes "hnd < fc" "length bits = fc"
  shows "\<exists>k\<le>fc. (\<forall>j<k. clock_cleared fc bits hnd j ! ((hnd + j) mod fc) \<noteq> 0) \<and>
                 clock_cleared fc bits hnd k ! ((hnd + k) mod fc) = 0"
proof -
  let ?Z = "\<lambda>k. clock_cleared fc bits hnd k ! ((hnd + k) mod fc) = 0"
  have fc: "0 < fc" using assms by simp
  then obtain m where m: "fc = Suc m" by (cases fc) auto
  have "bits[hnd := 0] ! hnd = 0" using assms by simp
  then have "clock_cleared fc (bits[hnd := 0]) ((hnd + 1) mod fc) m ! hnd = 0"
    using assms by (intro clock_cleared_zero) simp_all
  moreover have "(hnd + fc) mod fc = hnd" using assms(1) by simp
  ultimately have "?Z fc" by (simp add: m del: mod_add_self2 add_Suc_right)
  then have least: "?Z (LEAST k. ?Z k)" and le: "(LEAST k. ?Z k) \<le> fc"
    by (rule LeastI, rule Least_le)
  have "\<forall>j<(LEAST k. ?Z k). \<not> ?Z j"
    using not_less_Least by blast
  with least le show ?thesis by blast
qed

lemma clock_scan_total:
  assumes "hnd < fc" "length bits = fc"
  shows "\<exists>k\<le>fc.
           (\<forall>j<k. bits ! ((hnd + j) mod fc) \<noteq> 0) \<and>
           (k < fc \<longrightarrow> bits ! ((hnd + k) mod fc) = 0) \<and>
           clock_cleared fc bits hnd k ! ((hnd + k) mod fc) = 0 \<and>
           clock_scan fc p fr bits hnd 0 =
             Inr \<lparr>ev_frames = fr[(hnd + k) mod fc := Some p],
                  ev_refBits = (clock_cleared fc bits hnd k)[(hnd + k) mod fc := 1],
                  ev_hand = ((hnd + k) mod fc + 1) mod fc,
                  ev_victimIndex = (hnd + k) mod fc,
                  ev_victimPage = fr ! ((hnd + k) mod fc),
                  ev_scans = k + 1\<rparr>"
proof -
  have fc: "0 < fc" using assms by simp
  from clock_first_zero [OF assms] obtain k where k: "k \<le> fc"
    "\<forall>j<k. clock_cleared fc bits hnd j ! ((hnd + j) mod fc) \<noteq> 0"
    "clock_cleared fc bits hnd k ! ((hnd + k) mod fc) = 0"
    by blast
  have inj: "\<And>a b. a < b \<Longrightarrow> b < fc \<Longrightarrow> (hnd + a) mod fc \<noteq> (hnd + b) mod fc"
  proof
    fix a b assume ab: "a < b" "b < fc" and eq: "(hnd + a) mod fc = (hnd + b) mod fc"
    then have "(hnd + b - (hnd + a)) mod fc = 0"
      by (metis add_less_cancel_left less_imp_le mod_eq_dvd_iff_nat dvd_imp_mod_0)
    then have "(b - a) mod fc = 0" by simp
    with ab show False by simp
  qed
  have orig: "clock_cleared fc bits hnd j ! ((hnd + j) mod fc) = bits ! ((hnd + j) mod fc)"
    if "j < fc" for j
  proof -
    have "\<not> (\<exists>j'<j. (hnd + j) mod fc = (hnd + j') mod fc)"
      using inj that by (metis)
    moreover have "(hnd + j) mod fc < length bits" using fc assms(2) by simp
    ultimately show ?thesis
      using clock_cleared_nth [OF assms(1), of "(hnd + j) mod fc" bits j] by auto
  qed
  have "\<forall>j<k. bits ! ((hnd + j) mod fc) \<noteq> 0"
    using k(1,2) orig by (metis less_le_trans)
  moreover have "k < fc \<longrightarrow> bits ! ((hnd + k) mod fc) = 0"
    using k(3) orig by auto
  moreover have "k \<le> fc * 5" using k(1) by simp
  then have "0 + k \<le> fc * 5" by simp
  note clock_scan_finds [OF assms(1) k(2,3) this, of p fr]
  ultimately show ?thesis using k(1,3) by (intro exI [of _ k]) simp
qed

lemma clock_step_hit:
  "indexOf (clock_frames st) (Some (refs ! i)) = Some hitIndex \<Longrightarrow>
   clock_step fc refs st i =
     Inr (st\<lparr>clock_refBits := (clock_refBits st)[hitIndex := 1],
             clock_hits := clock_hits st + 1,
             clock_steps := clock_steps st @
               [\<lparr>index = i, page = refs ! i, frames = clock_frames st,
                 hit = True, fault = False, replaced = None, replacedIndex = None,
                 meta = Some \<lparr>refBits = (clock_refBits st)[hitIndex := 1],
                               hand = clock_hand st\<rparr>\<rparr>]\<rparr>)"
  by (simp add: clock_step_def makeStep_def cloneArray_def Let_def)

lemma clock_step_fill:
  "indexOf (clock_frames st) (Some (refs ! i)) = None \<Longrightarrow>
   indexOf (clock_frames st) None = Some emptyIndex \<Longrightarrow>
   clock_step fc refs st i =
     Inr (st\<lparr>clock_frames := (clock_frames st)[emptyIndex := Some (refs ! i)],
             clock_refBits := (clock_refBits st)[emptyIndex := 1],
             clock_faults := clock_faults st + 1,
             clock_steps := clock_steps st @
               [\<lparr>index = i, page = refs ! i,
                 frames = (clock_frames st)[emptyIndex := Some (refs ! i)],
                 hit = False, fault = True, replaced = None, replacedIndex = None,
                 meta = Some \<lparr>refBits = (clock_refBits st)[emptyIndex := 1],
                               hand = clock_hand st\<rparr>\<rparr>]\<rparr>)"
  by (simp add: clock_step_def makeStep_def cloneArray_def Let_def)

lemma clock_step_evict:
  "indexOf (clock_frames st) (Some (refs ! i)) = None \<Longrightarrow>
   indexOf (clock_frames st) None = None \<Longrightarrow>
   clock_scan fc (refs ! i) (clock_frames st) (clock_refBits st) (clock_hand st) 0 = Inr ev \<Longrightarrow>
   clock_step fc refs st i =
     Inr (st\<lparr>clock_frames := ev_frames ev,
             clock_refBits := ev_refBits ev,
             clock_hand := ev_hand ev,
             clock_faults := clock_faults st + 1,
             clock_steps := clock_steps st @
               [\<lparr>index = i, page = refs ! i, frames = ev_frames ev,
                 hit = False, fault = True, replaced = ev_victimPage ev,
                 replacedIndex = Some (int (ev_victimIndex ev)),
                 meta = Some \<lparr>refBits = ev_refBits ev, hand = ev_hand ev\<rparr>\<rparr>]\<rparr>)"
  by (simp add: clock_step_def makeStep_def cloneArray_def Let_def)

lemma clock_inv_init: "0 < fc \<Longrightarrow> clock_inv fc refs 0 (clock_init fc)"
  by (simp add: clock_inv_def clock_init_def trace_inv_init) (simp add: array_fill_def bits01_replicate)

lemma clock_inv_step:
  assumes "clock_inv fc refs n st"
  shows "\<exists>st'. clock_step fc refs st n = Inr st' \<and> clock_inv fc refs (Suc n) st'"
proof -
  let ?fr = "clock_frames st" and ?p = "refs ! n"
  from assms have tr: "trace_inv fc refs n ?fr (clock_hits st) (clock_faults st) (clock_steps st)"
    and bl: "length (clock_refBits st) = fc" and hd: "clock_hand st < fc"
    and b01: "bits01 (clock_refBits st)"
    by (simp_all add: clock_inv_def)
  from tr have len: "length ?fr = fc" and dist: "pages_distinct ?fr"
    by (simp_all add: trace_inv_def)
  show ?thesis
  proof (cases "indexOf ?fr (Some ?p)")
    case (Some hitIndex)
    then show ?thesis using bl hd
      by (simp add: clock_step_hit clock_inv_def trace_inv_snoc [OF tr len dist]
            bits01_update [OF b01])
  next
    case miss: None
    then have notin: "Some ?p \<notin> set ?fr"
      by (simp add: indexOf_None_iff)
    show ?thesis
    proof (cases "indexOf ?fr None")
      case (Some emptyIndex)
      with miss bl hd show ?thesis
        by (simp add: clock_step_fill clock_inv_def bits01_update [OF b01]
              trace_inv_snoc [OF tr] len pages_distinct_update [OF dist notin])
    next
      case None
      from clock_scan_total [OF hd bl, of ?p ?fr]
      obtain k where
        sc: "clock_scan fc ?p ?fr (clock_refBits st) (clock_hand st) 0 =
             Inr \<lparr>ev_frames = ?fr[(clock_hand st + k) mod fc := Some ?p],
                  ev_refBits = (clock_cleared fc (clock_refBits st) (clock_hand st) k)
                                 [(clock_hand st + k) mod fc := 1],
                  ev_hand = ((clock_hand st + k) mod fc + 1) mod fc,
                  ev_victimIndex = (clock_hand st + k) mod fc,
                  ev_victimPage = ?fr ! ((clock_hand st + k) mod fc),
                  ev_scans = k + 1\<rparr>"
        by blast
      have "0 < fc" using hd by simp
      moreover have "bits01 ((clock_cleared fc (clock_refBits st) (clock_hand st) k)
                               [(clock_hand st + k) mod fc := 1])"
        by (intro bits01_update bits01_cleared b01) simp
      ultimately show ?thesis using bl
        by (simp add: clock_step_evict [OF miss None sc] clock_inv_def
              trace_inv_snoc [OF tr] len pages_distinct_update [OF dist notin])
    qed
  qed
qed

lemma clock_run_Suc:
  "clock_run fc refs (Suc n) = clock_next fc refs (clock_run fc refs n) n"
  by (simp add: clock_run_def)

lemma clock_inv_run:
  "0 < fc \<Longrightarrow> \<exists>st. clock_run fc refs n = Inr st \<and> clock_inv fc refs n st"
proof (induction n)
  case 0
  then show ?case by (simp add: clock_run_def clock_inv_init)
next
  case (Suc n)
  then obtain st where st: "clock_run fc refs n = Inr st" "clock_inv fc refs n st"
    by blast
  from clock_inv_step [OF st(2)] st(1) show ?case
    by (simp add: clock_run_Suc clock_next_def)
qed

subsection \<open>Traces and snapshots\<close>

lemma nth_of_growing:
  fixes S :: "nat \<Rightarrow> 'a list"
  assumes len: "\<And>n. length (S n) = n" and grow: "\<And>n. \<exists>s. S (Suc n) = S n @ [s]"
  shows "i < n \<Longrightarrow> S n ! i = last (S (Suc i))"
proof (induction n)
  case 0
  then show ?case by simp
next
  case (Suc n)
  from grow [of n] obtain s where s: "S (Suc n) = S n @ [s]" by blast
  show ?case
  proof (cases "i = n")
    case True
    then show ?thesis by (simp add: s nth_append len)
  next
    case False
    with Suc.prems have "i < n" by simp
    with Suc.IH show ?thesis by (simp add: s nth_append len)
  qed
qed

lemma trace_inv_lastD:
  "trace_inv fc refs (Suc n) fr h f ss \<Longrightarrow> frames (last ss) = fr"
  by (auto simp: trace_inv_def)

lemma lru_steps_step: "\<exists>s. lru_steps (lru_step fc refs st i) = lru_steps st @ [s]"
  by (simp add: lru_step_def Let_def split: option.splits prod.splits)

lemma opt_steps_step: "\<exists>s. opt_steps (opt_step fc refs st i) = opt_steps st @ [s]"
  by (simp add: opt_step_def Let_def split: option.splits prod.splits)

lemma fifo_snapshot:
  assumes "0 < fc" "i < n"
  shows "frames (fifo_steps (fifo_run fc refs n) ! i) = fifo_frames (fifo_run fc refs (Suc i))"
proof -
  have "fifo_steps (fifo_run fc refs n) ! i = last (fifo_steps (fifo_run fc refs (Suc i)))"
  proof (rule nth_of_growing [where S = "\<lambda>n. fifo_steps (fifo_run fc refs n)"])
    show "length (fifo_steps (fifo_run fc refs n)) = n" for n
      using fifo_inv_run [OF assms(1), of refs n] by (simp add: fifo_inv_def trace_inv_def)
    show "\<exists>s. fifo_steps (fifo_run fc refs (Suc n)) = fifo_steps (fifo_run fc refs n) @ [s]" for n
      by (simp add: fifo_run_Suc fifo_steps_step)
  qed (rule assms(2))
  then show ?thesis
    using fifo_inv_run [OF assms(1), of refs "Suc i"]
    by (auto simp: fifo_inv_def dest: trace_inv_lastD)
qed

lemma lru_snapshot:
  assumes "0 < fc" "i < n"
  shows "frames (lru_steps (lru_run fc refs n) ! i) = lru_frames (lru_run fc refs (Suc i))"
proof -
  have "lru_steps (lru_run fc refs n) ! i = last (lru_steps (lru_run fc refs (Suc i)))"
  proof (rule nth_of_growing [where S = "\<lambda>n. lru_steps (lru_run fc refs n)"])
    show "length (lru_steps (lru_run fc refs n)) = n" for n
      using lru_inv_run [OF assms(1), of refs n] by (simp add: lru_inv_def trace_inv_def)
    show "\<exists>s. lru_steps (lru_run fc refs (Suc n)) = lru_steps (lru_run fc refs n) @ [s]" for n
      by (simp add: lru_run_Suc lru_steps_step)
  qed (rule assms(2))
  then show ?thesis
    using lru_inv_run [OF assms(1), of refs "Suc i"]
    by (auto simp: lru_inv_def dest: trace_inv_lastD)
qed

lemma opt_snapshot:
  assumes "i < n"
  shows "frames (opt_steps (opt_run fc refs n) ! i) = opt_frames (opt_run fc refs (Suc i))"
proof -
  have "opt_steps (opt_run fc refs n) ! i = last (opt_steps (opt_run fc refs (Suc i)))"
  proof (rule nth_of_growing [where S = "\<lambda>n. opt_steps (opt_run fc refs n)"])
    show "length (opt_steps (opt_run fc refs n)) = n" for n
      using opt_inv_run [of fc refs n] by (simp add: opt_inv_def trace_inv_def)
    show "\<exists>s. opt_steps (opt_run fc refs (Suc n)) = opt_steps (opt_run fc refs n) @ [s]" for n
      by (simp add: opt_run_Suc opt_steps_step)
  qed (rule assms)
  then show ?thesis
    using opt_inv_run [of fc refs "Suc i"]
    by (auto simp: opt_inv_def dest: trace_inv_lastD)
qed

lemma clock_run_state_at:
  "0 < fc \<Longrightarrow> clock_run fc refs n = Inr (clock_state_at fc refs n)"
  using clock_inv_run [of fc refs n] by (auto simp: clock_state_at_def)

lemma clock_inv_state_at:
  "0 < fc \<Longrightarrow> clock_inv fc refs n (clock_state_at fc refs n)"
  using clock_inv_run [of fc refs n] by (auto simp: clock_state_at_def)

lemma clock_state_at_Suc:
  "0 < fc \<Longrightarrow> clock_step fc refs (clock_state_at fc refs n) n = Inr (clock_state_at fc refs (Suc n))"
  using clock_run_state_at [of fc refs "Suc n"] clock_run_state_at [of fc refs n]
  by (simp add: clock_run_Suc clock_next_def)

lemma clock_steps_step:
  "clock_step fc refs st i = Inr st' \<Longrightarrow> \<exists>s. clock_steps st' = clock_steps st @ [s]"
  by (auto simp: clock_step_def Let_def split: option.splits sum.splits)

lemma clock_snapshot:
  assumes "0 < fc" "i < n"
  shows "frames (clock_steps (clock_state_at fc refs n) ! i) =
         clock_frames (clock_state_at fc refs (Suc i))"
proof -
  have "clock_steps (clock_state_at fc refs n) ! i =
        last (clock_steps (clock_state_at fc refs (Suc i)))"
  proof (rule nth_of_growing [where S = "\<lambda>n. clock_steps (clock_state_at fc refs n)"])
    show "length (clock_steps (clock_state_at fc refs n)) = n" for n
      using clock_inv_state_at [OF assms(1), of refs n] by (simp add: clock_inv_def trace_inv_def)
    show "\<exists>s. clock_steps (clock_state_at fc refs (Suc n)) =
              clock_steps (clock_state_at fc refs n) @ [s]" for n
      using clock_state_at_Suc [OF assms(1), of refs n] by (rule clock_steps_step)
  qed (rule assms(2))
  then show ?thesis
    using clock_inv_state_at [OF assms(1), of refs "Suc i"]
    by (auto simp: clock_inv_def dest: trace_inv_lastD)
qed

lemma hit_fault_partition:
  "\<forall>s \<in> set ss. hit s \<noteq> fault s \<Longrightarrow>
   length (filter hit ss) + length (filter fault ss) = length ss"
  by (induction ss) auto

lemma trace_inv_facts:
  assumes "trace_inv fc refs (length refs) fr h f ss"
  shows "trace_facts fc refs \<lparr>steps = ss, summary = \<lparr>hits = h, faults = f\<rparr>\<rparr>"
proof -
  from assms have len: "length ss = length refs"
    and each: "\<forall>s \<in> set ss. hit s \<noteq> fault s \<and> length (frames s) = fc \<and> pages_distinct (frames s)"
    and h: "h = length (filter hit ss)" and f: "f = length (filter fault ss)"
    and ix: "\<forall>i<length refs. index (ss ! i) = i \<and> page (ss ! i) = refs ! i"
    by (simp_all add: trace_inv_def)
  from each have "h + f = length ss"
    unfolding h f by (intro hit_fault_partition) blast
  moreover from each len have "\<forall>i<length refs. hit (ss ! i) \<noteq> fault (ss ! i) \<and>
      length (frames (ss ! i)) = fc \<and> pages_distinct (frames (ss ! i))"
    by (metis nth_mem)
  ultimately show ?thesis using len h f ix
    by (simp add: trace_facts_def)
qed

lemma simulateFIFO_facts: "0 < fc \<Longrightarrow> trace_facts fc refs (simulateFIFO fc refs)"
  using fifo_inv_run [of fc refs "length refs"]
  by (auto simp: simulateFIFO_def fifo_inv_def Let_def intro: trace_inv_facts)

lemma simulateLRU_facts: "0 < fc \<Longrightarrow> trace_facts fc refs (simulateLRU fc refs)"
  using lru_inv_run [of fc refs "length refs"]
  by (auto simp: simulateLRU_def lru_inv_def Let_def intro: trace_inv_facts)

lemma simulateOPT_facts: "trace_facts fc refs (simulateOPT fc refs)"
  using opt_inv_run [of fc refs "length refs"]
  by (simp add: simulateOPT_def opt_inv_def trace_inv_facts Let_def)

lemma simulateCLOCK_eq:
  "0 < fc \<Longrightarrow> simulateCLOCK fc refs =
     Inr \<lparr>steps = clock_steps (clock_state_at fc refs (length refs)),
          summary = \<lparr>hits = clock_hits (clock_state_at fc refs (length refs)),
                     faults = clock_faults (clock_state_at fc refs (length refs))\<rparr>\<rparr>"
  by (simp add: simulateCLOCK_def clock_run_state_at)

lemma simulateCLOCK_facts:
  "0 < fc \<Longrightarrow> \<exists>r. simulateCLOCK fc refs = Inr r \<and> trace_facts fc refs r"
  using clock_inv_state_at [of fc refs "length refs"]
  by (auto simp: simulateCLOCK_eq clock_inv_def intro: trace_inv_facts)

subsection \<open>Accepted inputs\<close>

lemma validFrames_pos: "validFrames c \<Longrightarrow> 0 < framesOf c \<and> framesOf c \<le> 50"
proof (cases c)
  case (JNum q)
  assume "validFrames c"
  with JNum have q: "1 \<le> q" "q \<le> 50" by simp_all
  from q(1) have "1 \<le> \<lfloor>q\<rfloor>" by (simp add: le_floor_iff)
  moreover from q(2) have "\<lfloor>q\<rfloor> \<le> 50" by (simp add: floor_le_iff)
  ultimately have "0 < nat \<lfloor>q\<rfloor> \<and> nat \<lfloor>q\<rfloor> \<le> 50" by linarith
  with JNum show ?thesis by simp
qed simp_all

lemma simulate_valid:
  assumes "validFrames c" "refs \<noteq> []"
  shows "simulate algoName c refs =
     (if algoName = ''FIFO'' then Inr (simulateFIFO (framesOf c) refs)
      else if algoName = ''LRU'' then Inr (simulateLRU (framesOf c) refs)
      else if algoName = ''OPT'' then Inr (simulateOPT (framesOf c) refs)
      else if algoName = ''CLOCK'' then simulateCLOCK (framesOf c) refs
      else Inl (Error (''Unknown algorithm: '' @ algoName)))"
  using assms by (simp add: simulate_def assert_def)

lemma simulate_facts:
  assumes "validFrames c" "refs \<noteq> []"
    and "algoName \<in> {''FIFO'', ''LRU'', ''OPT'', ''CLOCK''}"
  shows "\<exists>r. simulate algoName c refs = Inr r \<and> trace_facts (framesOf c) refs r"
proof -
  have fc: "0 < framesOf c" using assms(1) by (simp add: validFrames_pos)
  from assms(3) consider "algoName = ''FIFO''" | "algoName = ''LRU''" | "algoName = ''OPT''"
    | "algoName = ''CLOCK''" by blast
  then show ?thesis
  proof cases
    case 1
    then show ?thesis by (simp add: simulate_valid [OF assms(1,2)] simulateFIFO_facts [OF fc])
  next
    case 2
    then show ?thesis by (simp add: simulate_valid [OF assms(1,2)] simulateLRU_facts [OF fc])
  next
    case 3
    then show ?thesis by (simp add: simulate_valid [OF assms(1,2)] simulateOPT_facts)
  next
    case 4
    then show ?thesis by (simp add: simulate_valid [OF assms(1,2)] simulateCLOCK_facts [OF fc])
  qed
qed

lemma simulate_snapshot:
  assumes "validFrames c" "refs \<noteq> []"
    and "algoName \<in> {''FIFO'', ''LRU'', ''OPT'', ''CLOCK''}"
    and "simulate algoName c refs = Inr r" and "i < length refs"
  shows "frames (steps r ! i) = frames_after algoName (framesOf c) refs i"
proof -
  have fc: "0 < framesOf c" using assms(1) by (simp add: validFrames_pos)
  from assms(3) consider "algoName = ''FIFO''" | "algoName = ''LRU''" | "algoName = ''OPT''"
    | "algoName = ''CLOCK''" by blast
  then show ?thesis
  proof cases
    case 1
    with assms(4) have "r = simulateFIFO (framesOf c) refs"
      by (simp add: simulate_valid [OF assms(1,2)])
    with 1 show ?thesis
      by (simp add: simulateFIFO_def frames_after_def fifo_snapshot [OF fc assms(5)] Let_def)
  next
    case 2
    with assms(4) have "r = simulateLRU (framesOf c) refs"
      by (simp add: simulate_valid [OF assms(1,2)])
    with 2 show ?thesis
      by (simp add: simulateLRU_def frames_after_def lru_snapshot [OF fc assms(5)] Let_def)
  next
    case 3
    with assms(4) have "r = simulateOPT (framesOf c) refs"
      by (simp add: simulate_valid [OF assms(1,2)])
    with 3 show ?thesis
      by (simp add: simulateOPT_def frames_after_def opt_snapshot [OF assms(5)] Let_def)
  next
    case 4
    with assms(4) have "simulateCLOCK (framesOf c) refs = Inr r"
      by (simp add: simulate_valid [OF assms(1,2)])
    then have "steps r = clock_steps (clock_state_at (framesOf c) refs (length refs))"
      by (auto simp: simulateCLOCK_eq [OF fc])
    with 4 show ?thesis
      by (simp add: frames_after_def clock_snapshot [OF fc assms(5)]
            clock_run_state_at [OF fc])
  qed
qed


subsection \<open>The next use, as the scan computes it\<close>

lemma nextUse_from_filter:
  "nextUse_from refs pg j =
     (case filter (\<lambda>j. Some (refs ! j) = pg) [j..<length refs] of
        [] \<Rightarrow> Infinity
      | k # ks \<Rightarrow> Fin (int k))"
proof (induction refs pg j rule: nextUse_from.induct)
  case (1 refs pg j)
  show ?case
  proof (cases "j < length refs")
    case False
    then show ?thesis by (simp add: nextUse_from.simps [of refs pg j])
  next
    case True
    then have upt: "[j..<length refs] = j # [j + 1..<length refs]"
      by (simp add: upt_conv_Cons)
    show ?thesis
    proof (cases "Some (refs ! j) = pg")
      case eq: True
      with True show ?thesis by (simp add: nextUse_from.simps [of refs pg j] upt)
    next
      case False
      with True "1.IH" show ?thesis
        by (simp add: nextUse_from.simps [of refs pg j] upt)
    qed
  qed
qed

lemma nextUse_from_spec: "nextUse_from refs pg (i + 1) = next_use_spec refs i pg"
  unfolding next_use_spec_def by (rule nextUse_from_filter)

subsection \<open>Schedules: exchanging one resident page\<close>

lemma card_full_finite: "card S = k \<Longrightarrow> 0 < k \<Longrightarrow> finite S"
  by (rule card_ge_0_finite) simp

lemma sched_one_off:
  assumes "sched k T r n" and "T = insert x U" and "x \<notin> U" and "y \<notin> U"
    and "card T = k" and "0 < k"
  shows "\<exists>m\<le>Suc n. sched k (insert y U) r m"
  using assms
proof (induction arbitrary: U x y rule: sched.induct)
  case (sched_Nil k S)
  have "sched k (insert y U) [] 0" by (rule sched.sched_Nil)
  then show ?case by blast
next
  case (sched_hit p T k r n)
  have fin: "finite U" using sched_hit.prems card_full_finite [of T k] by simp
  have cardS: "card (insert y U) = k"
    using sched_hit.prems fin by simp
  show ?case
  proof (cases "p \<in> insert y U")
    case True
    from sched_hit.IH [OF sched_hit.prems] obtain m where "m \<le> Suc n" "sched k (insert y U) r m"
      by blast
    with True have "sched k (insert y U) (p # r) m" by (intro sched.sched_hit)
    with \<open>m \<le> Suc n\<close> show ?thesis by blast
  next
    case False
    with sched_hit.hyps(1) sched_hit.prems(1) have px: "p = x" and xy: "x \<noteq> y" by auto
    have "insert p (insert y U - {y}) = T"
      using sched_hit.prems px by auto
    with sched_hit.hyps(2) have "sched k (insert p (insert y U - {y})) r n" by simp
    from sched.sched_evict [OF False cardS _ this] have "sched k (insert y U) (p # r) (Suc n)"
      by simp
    then show ?thesis by blast
  qed
next
  case (sched_fill p S k r n)
  then show ?case by simp
next
  case (sched_evict p T k z r n)
  have fin: "finite U" using sched_evict.prems card_full_finite [of T k] by simp
  have cardS: "card (insert y U) = k"
    using sched_evict.prems fin by simp
  have finT: "finite T" using sched_evict.prems fin by simp
  have cardT': "card (insert p (T - {z})) = k"
    using sched_evict.hyps(1,2,3) finT sched_evict.prems(5)
    by (simp add: card.insert_remove)
  have px: "p \<noteq> x" and pU: "p \<notin> U" using sched_evict.hyps(1) sched_evict.prems(1) by auto
  show ?case
  proof (cases "p = y")
    case py: True
    show ?thesis
    proof (cases "z = x")
      case True
      then have "insert p (T - {z}) = insert y U"
        using sched_evict.prems py by auto
      with sched_evict.hyps(4) have "sched k (insert y U) r n" by simp
      then have "sched k (insert y U) (p # r) n"
        using py by (intro sched.sched_hit) simp_all
      then show ?thesis by (intro exI [of _ n]) simp
    next
      case False
      with sched_evict.hyps(3) sched_evict.prems(1) have zU: "z \<in> U" by auto
      let ?U' = "insert y (U - {z})"
      have T': "insert p (T - {z}) = insert x ?U'"
        using sched_evict.prems py False by auto
      have x': "x \<notin> ?U'" using sched_evict.prems px py by auto
      have z': "z \<notin> ?U'" using zU sched_evict.prems by auto
      from sched_evict.IH [OF T' x' z' cardT' sched_evict.prems(5)]
      obtain m where m: "m \<le> Suc n" "sched k (insert z ?U') r m" by blast
      have "insert z ?U' = insert y U" using zU by auto
      with m have "sched k (insert y U) r m" by simp
      then have "sched k (insert y U) (p # r) m"
        using py by (intro sched.sched_hit) simp_all
      with m(1) show ?thesis by (intro exI [of _ m]) simp
    qed
  next
    case pny: False
    with pU have pS: "p \<notin> insert y U" by simp
    show ?thesis
    proof (cases "z = x")
      case True
      then have "insert p (T - {z}) = insert p (insert y U - {y})"
        using sched_evict.prems by auto
      with sched_evict.hyps(4) have "sched k (insert p (insert y U - {y})) r n" by simp
      from sched.sched_evict [OF pS cardS _ this] have "sched k (insert y U) (p # r) (Suc n)"
        by simp
      then show ?thesis by (intro exI [of _ "Suc n"]) simp
    next
      case False
      with sched_evict.hyps(3) sched_evict.prems(1) have zU: "z \<in> U" by auto
      let ?U' = "insert p (U - {z})"
      have T': "insert p (T - {z}) = insert x ?U'"
        using sched_evict.prems False by auto
      have x': "x \<notin> ?U'" using sched_evict.prems px by auto
      have y': "y \<notin> ?U'" using sched_evict.prems pny by auto
      from sched_evict.IH [OF T' x' y' cardT' sched_evict.prems(5)]
      obtain m where m: "m \<le> Suc n" "sched k (insert y ?U') r m" by blast
      have "insert y ?U' = insert p (insert y U - {z})"
        using zU sched_evict.prems by auto
      with m have "sched k (insert p (insert y U - {z})) r m" by simp
      from sched.sched_evict [OF pS cardS _ this] zU
      have "sched k (insert y U) (p # r) (Suc m)" by simp
      with m(1) show ?thesis by (intro exI [of _ "Suc m"]) simp
    qed
  qed
qed

lemma nxt_le_length: "nxt x r \<le> length r"
  by (induction r) simp_all

lemma sched_swap:
  assumes "sched k T r n" and "T = insert x U" and "x \<notin> U" and "y \<notin> U"
    and "card T = k" and "0 < k" and "nxt y r \<le> nxt x r"
  shows "\<exists>m\<le>n. sched k (insert y U) r m"
  using assms
proof (induction arbitrary: U x y rule: sched.induct)
  case (sched_Nil k S)
  have "sched k (insert y U) [] 0" by (rule sched.sched_Nil)
  then show ?case by blast
next
  case (sched_hit p T k r n)
  show ?case
  proof (cases "p = x")
    case True
    with sched_hit.prems(6) have "y = x" by (simp split: if_splits)
    moreover have "sched k T (p # r) n"
      using sched_hit.hyps by (rule sched.sched_hit)
    ultimately show ?thesis using sched_hit.prems(1) by blast
  next
    case False
    with sched_hit.hyps(1) sched_hit.prems(1) have pU: "p \<in> U" by simp
    with sched_hit.prems(3) have py: "p \<noteq> y" by blast
    with False sched_hit.prems(6) have "nxt y r \<le> nxt x r" by simp
    from sched_hit.IH [OF sched_hit.prems(1-5) this]
    obtain m where m: "m \<le> n" "sched k (insert y U) r m" by blast
    from pU m(2) have "sched k (insert y U) (p # r) m"
      by (intro sched.sched_hit) simp_all
    with m(1) show ?thesis by blast
  qed
next
  case (sched_fill p S k r n)
  then show ?case by simp
next
  case (sched_evict p T k z r n)
  have fin: "finite U" using sched_evict.prems card_full_finite [of T k] by simp
  have cardS: "card (insert y U) = k"
    using sched_evict.prems fin by simp
  have finT: "finite T" using sched_evict.prems fin by simp
  have cardT': "card (insert p (T - {z})) = k"
    using sched_evict.hyps(1,2,3) finT sched_evict.prems(5)
    by (simp add: card.insert_remove)
  have px: "p \<noteq> x" and pU: "p \<notin> U" using sched_evict.hyps(1) sched_evict.prems(1) by auto
  show ?case
  proof (cases "p = y")
    case py: True
    show ?thesis
    proof (cases "z = x")
      case True
      then have "insert p (T - {z}) = insert y U"
        using sched_evict.prems py by auto
      with sched_evict.hyps(4) have "sched k (insert y U) r n" by simp
      then have "sched k (insert y U) (p # r) n"
        using py by (intro sched.sched_hit) simp_all
      then show ?thesis by (intro exI [of _ n]) simp
    next
      case False
      with sched_evict.hyps(3) sched_evict.prems(1) have zU: "z \<in> U" by auto
      let ?U' = "insert y (U - {z})"
      have T': "insert p (T - {z}) = insert x ?U'"
        using sched_evict.prems py False by auto
      have x': "x \<notin> ?U'" using sched_evict.prems px py by auto
      have z': "z \<notin> ?U'" using zU sched_evict.prems by auto
      from sched_one_off [OF sched_evict.hyps(4) T' x' z' cardT' sched_evict.prems(5)]
      obtain m where m: "m \<le> Suc n" "sched k (insert z ?U') r m" by blast
      have "insert z ?U' = insert y U" using zU by auto
      with m have "sched k (insert y U) r m" by simp
      then have "sched k (insert y U) (p # r) m"
        using py by (intro sched.sched_hit) simp_all
      with m(1) show ?thesis by (intro exI [of _ m]) simp
    qed
  next
    case pny: False
    with pU have pS: "p \<notin> insert y U" by simp
    from pny px sched_evict.prems(6) have nx: "nxt y r \<le> nxt x r" by simp
    show ?thesis
    proof (cases "z = x")
      case True
      then have "insert p (T - {z}) = insert p (insert y U - {y})"
        using sched_evict.prems by auto
      with sched_evict.hyps(4) have "sched k (insert p (insert y U - {y})) r n" by simp
      from sched.sched_evict [OF pS cardS _ this] have "sched k (insert y U) (p # r) (Suc n)"
        by simp
      then show ?thesis by (intro exI [of _ "Suc n"]) simp
    next
      case False
      with sched_evict.hyps(3) sched_evict.prems(1) have zU: "z \<in> U" by auto
      let ?U' = "insert p (U - {z})"
      have T': "insert p (T - {z}) = insert x ?U'"
        using sched_evict.prems False by auto
      have x': "x \<notin> ?U'" using sched_evict.prems px by auto
      have y': "y \<notin> ?U'" using sched_evict.prems pny by auto
      from sched_evict.IH [OF T' x' y' cardT' sched_evict.prems(5) nx]
      obtain m where m: "m \<le> n" "sched k (insert y ?U') r m" by blast
      have "insert y ?U' = insert p (insert y U - {z})"
        using zU sched_evict.prems by auto
      with m have "sched k (insert p (insert y U - {z})) r m" by simp
      from sched.sched_evict [OF pS cardS _ this] zU
      have "sched k (insert y U) (p # r) (Suc m)" by simp
      with m(1) show ?thesis by (intro exI [of _ "Suc m"]) simp
    qed
  qed
qed

subsection \<open>The engines follow schedules, and OPT is below every schedule\<close>

inductive_cases sched_ConsE: "sched k S (p # r) n"

lemma pages_replicate: "pages (replicate k None) = {}"
  by (auto simp: pages_def)

lemma pages_image: "pages fr = the ` set (filter (\<lambda>s. s \<noteq> None) fr)"
  by (force simp: pages_def image_iff)

lemma pages_card:
  assumes "pages_distinct fr"
  shows "card (pages fr) = length (filter (\<lambda>s. s \<noteq> None) fr)"
proof -
  let ?xs = "filter (\<lambda>s. s \<noteq> None) fr"
  have "inj_on the (set ?xs)"
    by (rule inj_onI) auto
  then have "card (the ` set ?xs) = card (set ?xs)" by (rule card_image)
  also have "\<dots> = length ?xs"
    using assms unfolding pages_distinct_def by (rule distinct_card)
  finally show ?thesis by (simp add: pages_image)
qed

lemma pages_card_full:
  "pages_distinct fr \<Longrightarrow> None \<notin> set fr \<Longrightarrow> card (pages fr) = length fr"
proof -
  assume a: "pages_distinct fr" "None \<notin> set fr"
  from a(2) have "filter (\<lambda>s. s \<noteq> None) fr = fr"
    by (intro filter_True) (metis not_None_eq)
  with pages_card [OF a(1)] show ?thesis by simp
qed

lemma pages_card_less:
  "pages_distinct fr \<Longrightarrow> None \<in> set fr \<Longrightarrow> card (pages fr) < length fr"
proof -
  assume a: "pages_distinct fr" "None \<in> set fr"
  from a(2) have "length (filter (\<lambda>s. s \<noteq> None) fr) < length fr"
    by (rule length_filter_less) simp
  with pages_card [OF a(1)] show ?thesis by simp
qed

lemma pages_fill:
  assumes "e < length fr" "fr ! e = None"
  shows "pages (fr[e := Some p]) = insert p (pages fr)"
proof -
  have "pages fr' = {q. Some q \<in> set fr' - {None}}" for fr' :: "slot list"
    by (auto simp: pages_def)
  then show ?thesis
    using set_update_fill [OF assms, of p] by auto
qed

lemma pages_evict:
  assumes "pages_distinct fr" "None \<notin> set fr" "v < length fr"
  shows "\<exists>z. fr ! v = Some z \<and> z \<in> pages fr \<and>
             pages (fr[v := Some p]) = insert p (pages fr - {z})"
proof -
  from assms(3) have mem: "fr ! v \<in> set fr" by simp
  with assms(2) obtain z where z: "fr ! v = Some z" by (cases "fr ! v") auto
  with mem have "z \<in> pages fr" by (simp add: pages_def)
  moreover have "pages fr' = {q. Some q \<in> set fr' - {None}}" for fr' :: "slot list"
    by (auto simp: pages_def)
  then have "pages (fr[v := Some p]) = insert p (pages fr - {z})"
    using set_update_evict [OF assms, of p] z by auto
  ultimately show ?thesis using z by blast
qed

lemma demand_sched:
  fixes F :: "nat \<Rightarrow> slot list" and G :: "nat \<Rightarrow> nat"
  assumes step: "\<And>i. i < length refs \<Longrightarrow>
      demand_step k (refs ! i) (F i) (G i) (F (Suc i)) (G (Suc i))"
    and wf: "\<And>i. length (F i) = k \<and> pages_distinct (F i)"
  shows "i \<le> length refs \<Longrightarrow>
     \<exists>m. sched k (pages (F i)) (drop i refs) m \<and> G (length refs) = G i + m"
proof (induction "length refs - i" arbitrary: i)
  case 0
  then have "i = length refs" by simp
  then show ?case using sched.sched_Nil [of k "pages (F i)"] by simp
next
  case (Suc d)
  then have i: "i < length refs" by simp
  then have dr: "drop i refs = refs ! i # drop (Suc i) refs"
    by (simp add: Cons_nth_drop_Suc)
  have "d = length refs - Suc i" "Suc i \<le> length refs"
    using Suc.hyps(2) i by simp_all
  from Suc.hyps(1) [OF this]
  obtain m where m: "sched k (pages (F (Suc i))) (drop (Suc i) refs) m"
    "G (length refs) = G (Suc i) + m"
    by blast
  let ?p = "refs ! i" and ?fr = "F i"
  have len: "length ?fr = k" and dist: "pages_distinct ?fr" using wf [of i] by simp_all
  note st = step [OF i]
  show ?case
  proof (cases "indexOf ?fr (Some ?p)")
    case (Some h)
    with st have eq: "F (Suc i) = ?fr" "G (Suc i) = G i"
      by (simp_all add: demand_step_def)
    from Some have "?p \<in> pages ?fr"
      using indexOf_None_iff [of ?fr "Some ?p"] by (simp add: pages_def)
    with m eq have "sched k (pages ?fr) (?p # drop (Suc i) refs) m"
      by (intro sched.sched_hit) simp_all
    with m(2) eq show ?thesis by (simp add: dr)
  next
    case miss: None
    then have pn: "?p \<notin> pages ?fr"
      by (simp add: indexOf_None_iff pages_def)
    show ?thesis
    proof (cases "indexOf ?fr None")
      case (Some e)
      with miss st have eq: "F (Suc i) = ?fr[e := Some ?p]" "G (Suc i) = Suc (G i)"
        by (simp_all add: demand_step_def)
      from indexOf_SomeD [OF Some] have e: "e < length ?fr" "?fr ! e = None" by simp_all
      then have "None \<in> set ?fr" by (metis nth_mem)
      from pages_card_less [OF dist this] len have c: "card (pages ?fr) < k" by simp
      from m(1) have "sched k (insert ?p (pages ?fr)) (drop (Suc i) refs) m"
        by (simp add: eq pages_fill [OF e])
      from sched.sched_fill [OF pn c this] m(2) eq show ?thesis
        by (auto simp: dr)
    next
      case None
      then have full: "None \<notin> set ?fr" by (simp add: indexOf_None_iff)
      from miss None st obtain v where v: "v < k" "F (Suc i) = ?fr[v := Some ?p]"
        and g: "G (Suc i) = Suc (G i)"
        by (auto simp: demand_step_def)
      from v(1) len have vl: "v < length ?fr" by simp
      from pages_evict [OF dist full vl, of ?p] obtain z where
        z: "z \<in> pages ?fr" "pages (?fr[v := Some ?p]) = insert ?p (pages ?fr - {z})"
        by blast
      from pages_card_full [OF dist full] len have c: "card (pages ?fr) = k" by simp
      from m(1) have "sched k (insert ?p (pages ?fr - {z})) (drop (Suc i) refs) m"
        by (simp add: v(2) z(2))
      from sched.sched_evict [OF pn c z(1) this] m(2) g show ?thesis
        by (auto simp: dr)
    qed
  qed
qed

lemma nxt_less_iff: "nxt x r < length r \<longleftrightarrow> x \<in> set r"
  by (induction r) auto

lemma nextUse_from_nxt:
  "nextUse_from refs (Some q) j =
     (if q \<in> set (drop j refs) then Fin (int (j + nxt q (drop j refs))) else Infinity)"
proof (induction refs "Some q" j rule: nextUse_from.induct)
  case (1 refs j)
  show ?case
  proof (cases "j < length refs")
    case False
    then show ?thesis by (simp add: nextUse_from.simps [of refs "Some q" j])
  next
    case True
    then have dr: "drop j refs = refs ! j # drop (Suc j) refs"
      by (simp add: Cons_nth_drop_Suc)
    show ?thesis
    proof (cases "refs ! j = q")
      case eq: True
      with True show ?thesis
        by (simp add: nextUse_from.simps [of refs "Some q" j] dr)
    next
      case False
      with True "1.hyps" have "nextUse_from refs (Some q) (j + 1) =
        (if q \<in> set (drop (j + 1) refs) then Fin (int (j + 1 + nxt q (drop (j + 1) refs)))
         else Infinity)"
        by simp
      with True False show ?thesis
        by (simp add: nextUse_from.simps [of refs "Some q" j] dr)
    qed
  qed
qed

lemma nextUse_le_nxt:
  assumes "nextUse_from refs (Some z) j \<le> nextUse_from refs (Some x) j"
  shows "nxt z (drop j refs) \<le> nxt x (drop j refs)"
proof (cases "x \<in> set (drop j refs)")
  case False
  then have "nxt x (drop j refs) = length (drop j refs)"
    using nxt_less_iff [of x "drop j refs"] nxt_le_length [of x "drop j refs"] by simp
  then show ?thesis using nxt_le_length [of z "drop j refs"] by simp
next
  case True
  show ?thesis
  proof (cases "z \<in> set (drop j refs)")
    case zin: True
    with True assms show ?thesis by (simp add: nextUse_from_nxt)
  next
    case False
    with True assms have "Infinity \<le> Fin (int (j + nxt x (drop j refs)))"
      by (simp add: nextUse_from_nxt)
    then show ?thesis by (simp add: less_eq_ext_def)
  qed
qed

lemma opt_le_sched:
  assumes "0 < k"
  shows "i \<le> length refs \<Longrightarrow>
     sched k (pages (opt_frames (opt_run k refs i))) (drop i refs) n \<Longrightarrow>
     opt_faults (opt_run k refs (length refs)) \<le> opt_faults (opt_run k refs i) + n"
proof (induction "length refs - i" arbitrary: i n)
  case 0
  then show ?case by simp
next
  case (Suc d)
  then have i: "i < length refs" by simp
  then have dr: "drop i refs = refs ! i # drop (Suc i) refs"
    by (simp add: Cons_nth_drop_Suc)
  have d: "d = length refs - Suc i" "Suc i \<le> length refs"
    using Suc.hyps(2) i by simp_all
  note IH = Suc.hyps(1) [OF d]
  let ?st = "opt_run k refs i" and ?st' = "opt_run k refs (Suc i)"
  let ?fr = "opt_frames ?st" and ?p = "refs ! i" and ?rest = "drop (Suc i) refs"
  let ?N = "opt_faults (opt_run k refs (length refs))"
  have stp: "?st' = opt_step k refs ?st i" by (rule opt_run_Suc)
  from opt_inv_run [of k refs i]
  have len: "length ?fr = k" and dist: "pages_distinct ?fr"
    by (simp_all add: opt_inv_def trace_inv_def)
  from Suc.prems(2) have sc: "sched k (pages ?fr) (?p # ?rest) n" by (simp add: dr)
  show ?case
  proof (cases "indexOf ?fr (Some ?p)")
    case (Some h)
    have eq: "opt_frames ?st' = ?fr" "opt_faults ?st' = opt_faults ?st"
      by (subst stp, subst opt_step_hit [OF Some], simp)+
    from Some have pin: "?p \<in> pages ?fr"
      using indexOf_None_iff [of ?fr "Some ?p"] by (simp add: pages_def)
    from sc pin have "sched k (pages ?fr) ?rest n"
      by (auto elim: sched_ConsE)
    with IH [of n] eq show ?thesis by simp
  next
    case miss: None
    then have pn: "?p \<notin> pages ?fr"
      by (simp add: indexOf_None_iff pages_def)
    show ?thesis
    proof (cases "indexOf ?fr None")
      case (Some e)
      have eq: "opt_frames ?st' = ?fr[e := Some ?p]" "opt_faults ?st' = opt_faults ?st + 1"
        by (subst stp, subst opt_step_fill [OF miss Some], simp)+
      from indexOf_SomeD [OF Some] have e: "e < length ?fr" "?fr ! e = None" by simp_all
      then have "None \<in> set ?fr" by (metis nth_mem)
      from pages_card_less [OF dist this] len have c: "card (pages ?fr) < k" by simp
      from sc pn c obtain n' where n': "n = Suc n'" "sched k (insert ?p (pages ?fr)) ?rest n'"
        by (auto elim: sched_ConsE)
      from n'(2) have "sched k (pages (opt_frames ?st')) ?rest n'"
        by (simp add: eq pages_fill [OF e])
      from IH [OF this] eq n'(1) show ?thesis by simp
    next
      case None
      then have full: "None \<notin> set ?fr" by (simp add: indexOf_None_iff)
      from pages_card_full [OF dist full] len have c: "card (pages ?fr) = k" by simp
      from opt_scan_first_max [OF assms, of refs i ?fr]
      obtain v where v: "v < k"
        "opt_scan k refs i ?fr = (v, ?fr ! v, nextUse_from refs (?fr ! v) (i + 1))"
        "\<forall>fi<k. nextUse_from refs (?fr ! fi) (i + 1) \<le> nextUse_from refs (?fr ! v) (i + 1)"
        by blast
      have eq: "opt_frames ?st' = ?fr[v := Some ?p]" "opt_faults ?st' = opt_faults ?st + 1"
        by (subst stp, subst opt_step_evict [OF miss None v(2)], simp)+
      from v(1) len have vl: "v < length ?fr" by simp
      from pages_evict [OF dist full vl, of ?p] obtain x where
        x: "?fr ! v = Some x" "x \<in> pages ?fr"
        "pages (?fr[v := Some ?p]) = insert ?p (pages ?fr - {x})"
        by blast
      from sc pn c obtain n' z where n': "n = Suc n'" "z \<in> pages ?fr"
        "sched k (insert ?p (pages ?fr - {z})) ?rest n'"
        by (auto elim: sched_ConsE)
      have "\<exists>m\<le>n'. sched k (pages (opt_frames ?st')) ?rest m"
      proof (cases "z = x")
        case True
        with n'(3) show ?thesis by (auto simp: eq x(3))
      next
        case False
        let ?U = "insert ?p (pages ?fr - {x} - {z})"
        have T: "insert ?p (pages ?fr - {z}) = insert x ?U"
          using x(2) False by auto
        have xU: "x \<notin> ?U" using pn x(2) by auto
        have zU: "z \<notin> ?U" using pn n'(2) by auto
        have fin: "finite (pages ?fr)" using c assms by (rule card_full_finite)
        have cT: "card (insert ?p (pages ?fr - {z})) = k"
          using pn n'(2) c fin assms by (simp add: card.insert_remove)
        from n'(2) obtain fz where fz: "fz < k" "?fr ! fz = Some z"
          using len by (auto simp: pages_def in_set_conv_nth)
        from v(3) fz x(1) have "nextUse_from refs (Some z) (Suc i) \<le> nextUse_from refs (Some x) (Suc i)"
          by (metis Suc_eq_plus1)
        then have nx: "nxt z ?rest \<le> nxt x ?rest" by (rule nextUse_le_nxt)
        from sched_swap [OF n'(3) T xU zU cT assms nx]
        obtain m where m: "m \<le> n'" "sched k (insert z ?U) ?rest m" by blast
        have "insert z ?U = insert ?p (pages ?fr - {x})"
          using n'(2) False pn by auto
        with m show ?thesis by (auto simp: eq x(3))
      qed
      then obtain m where m: "m \<le> n'" "sched k (pages (opt_frames ?st')) ?rest m" by blast
      from IH [OF m(2)] eq m(1) n'(1) show ?thesis by simp
    qed
  qed
qed

lemma fifo_demand:
  assumes "0 < fc"
  shows "demand_step fc (refs ! i) (fifo_frames (fifo_run fc refs i)) (fifo_faults (fifo_run fc refs i))
           (fifo_frames (fifo_run fc refs (Suc i))) (fifo_faults (fifo_run fc refs (Suc i)))"
proof -
  let ?st = "fifo_run fc refs i"
  have stp: "fifo_run fc refs (Suc i) = fifo_step fc refs ?st i" by (rule fifo_run_Suc)
  from fifo_inv_run [OF assms, of refs i] have ptr: "fifo_pointer ?st < fc"
    by (simp add: fifo_inv_def)
  show ?thesis
  proof (cases "indexOf (fifo_frames ?st) (Some (refs ! i))")
    case (Some h)
    then show ?thesis
      by (simp add: demand_step_def stp fifo_step_hit [OF Some])
  next
    case miss: None
    show ?thesis
    proof (cases "indexOf (fifo_frames ?st) None")
      case (Some e)
      with miss show ?thesis
        by (simp add: demand_step_def stp fifo_step_fill [OF miss Some])
    next
      case None
      with miss ptr show ?thesis
        by (auto simp: demand_step_def stp fifo_step_evict [OF miss None])
    qed
  qed
qed

lemma lru_demand:
  assumes "0 < fc"
  shows "demand_step fc (refs ! i) (lru_frames (lru_run fc refs i)) (lru_faults (lru_run fc refs i))
           (lru_frames (lru_run fc refs (Suc i))) (lru_faults (lru_run fc refs (Suc i)))"
proof -
  let ?st = "lru_run fc refs i"
  have stp: "lru_run fc refs (Suc i) = lru_step fc refs ?st i" by (rule lru_run_Suc)
  show ?thesis
  proof (cases "indexOf (lru_frames ?st) (Some (refs ! i))")
    case (Some h)
    then show ?thesis
      by (simp add: demand_step_def stp lru_step_hit [OF Some])
  next
    case miss: None
    show ?thesis
    proof (cases "indexOf (lru_frames ?st) None")
      case (Some e)
      with miss show ?thesis
        by (simp add: demand_step_def stp lru_step_fill [OF miss Some])
    next
      case None
      from lru_scan_first_min [OF assms, of "lru_frames ?st" "lru_lastUsed ?st"]
      obtain v where v: "v < fc"
        "lru_scan fc (lru_frames ?st) (lru_lastUsed ?st) =
           (int v, lru_frames ?st ! v, lru_time (lru_lastUsed ?st) (lru_frames ?st ! v))"
        by blast
      with miss None show ?thesis
        by (auto simp: demand_step_def stp lru_step_evict [OF miss None v(2)])
    qed
  qed
qed

lemma clock_step_demand:
  assumes "clock_step fc refs st i = Inr st'"
    and "length (clock_refBits st) = fc" and "clock_hand st < fc"
  shows "demand_step fc (refs ! i) (clock_frames st) (clock_faults st)
           (clock_frames st') (clock_faults st')"
proof (cases "indexOf (clock_frames st) (Some (refs ! i))")
  case (Some h)
  with assms(1) show ?thesis
    by (auto simp: demand_step_def clock_step_hit [OF Some])
next
  case miss: None
  show ?thesis
  proof (cases "indexOf (clock_frames st) None")
    case (Some e)
    with assms(1) miss show ?thesis
      by (auto simp: demand_step_def clock_step_fill [OF miss Some])
  next
    case None
    from clock_scan_total [OF assms(3,2), of "refs ! i" "clock_frames st"]
    obtain k where
      sc: "clock_scan fc (refs ! i) (clock_frames st) (clock_refBits st) (clock_hand st) 0 =
           Inr \<lparr>ev_frames = (clock_frames st)[(clock_hand st + k) mod fc := Some (refs ! i)],
                ev_refBits = (clock_cleared fc (clock_refBits st) (clock_hand st) k)
                               [(clock_hand st + k) mod fc := 1],
                ev_hand = ((clock_hand st + k) mod fc + 1) mod fc,
                ev_victimIndex = (clock_hand st + k) mod fc,
                ev_victimPage = clock_frames st ! ((clock_hand st + k) mod fc),
                ev_scans = k + 1\<rparr>"
      by blast
    have "(clock_hand st + k) mod fc < fc" using assms(3) by simp
    with assms(1) miss None show ?thesis
      by (auto simp: demand_step_def clock_step_evict [OF miss None sc])
  qed
qed

lemma clock_demand:
  assumes "0 < fc"
  shows "demand_step fc (refs ! i)
           (clock_frames (clock_state_at fc refs i)) (clock_faults (clock_state_at fc refs i))
           (clock_frames (clock_state_at fc refs (Suc i)))
           (clock_faults (clock_state_at fc refs (Suc i)))"
proof -
  from clock_inv_state_at [OF assms, of refs i]
  have "length (clock_refBits (clock_state_at fc refs i)) = fc"
    and "clock_hand (clock_state_at fc refs i) < fc"
    by (simp_all add: clock_inv_def)
  with clock_state_at_Suc [OF assms, of refs i] show ?thesis
    by (rule clock_step_demand)
qed

lemma sched_from_empty:
  fixes F :: "nat \<Rightarrow> slot list" and G :: "nat \<Rightarrow> nat"
  assumes "0 < k"
    and step: "\<And>i. i < length refs \<Longrightarrow>
      demand_step k (refs ! i) (F i) (G i) (F (Suc i)) (G (Suc i))"
    and wf: "\<And>i. length (F i) = k \<and> pages_distinct (F i)"
    and init: "F 0 = array_fill k None" "G 0 = 0"
  shows "opt_faults (opt_run k refs (length refs)) \<le> G (length refs)"
proof -
  from demand_sched [of refs k F G 0, OF step wf]
  obtain m where m: "sched k (pages (F 0)) (drop 0 refs) m" "G (length refs) = G 0 + m"
    by auto
  have "pages (F 0) = pages (opt_frames (opt_run k refs 0))"
    by (simp add: init opt_run_def opt_init_def)
  with m(1) have "sched k (pages (opt_frames (opt_run k refs 0))) (drop 0 refs) m" by simp
  from opt_le_sched [OF assms(1) _ this]
  have "opt_faults (opt_run k refs (length refs)) \<le> opt_faults (opt_run k refs 0) + m"
    by simp
  with m(2) init(2) show ?thesis
    by (simp add: opt_run_def opt_init_def)
qed

lemma opt_le_fifo:
  assumes "0 < fc"
  shows "faults (summary (simulateOPT fc refs)) \<le> faults (summary (simulateFIFO fc refs))"
proof -
  have "opt_faults (opt_run fc refs (length refs)) \<le> fifo_faults (fifo_run fc refs (length refs))"
  proof (rule sched_from_empty [OF assms, where F = "\<lambda>i. fifo_frames (fifo_run fc refs i)"
        and G = "\<lambda>i. fifo_faults (fifo_run fc refs i)"])
    show "demand_step fc (refs ! i) (fifo_frames (fifo_run fc refs i))
        (fifo_faults (fifo_run fc refs i)) (fifo_frames (fifo_run fc refs (Suc i)))
        (fifo_faults (fifo_run fc refs (Suc i)))" for i
      by (rule fifo_demand [OF assms])
    show "length (fifo_frames (fifo_run fc refs i)) = fc \<and>
        pages_distinct (fifo_frames (fifo_run fc refs i))" for i
      using fifo_inv_run [OF assms, of refs i] by (simp add: fifo_inv_def trace_inv_def)
  qed (simp_all add: fifo_run_def fifo_init_def)
  then show ?thesis by (simp add: simulateOPT_def simulateFIFO_def Let_def)
qed

lemma opt_le_lru:
  assumes "0 < fc"
  shows "faults (summary (simulateOPT fc refs)) \<le> faults (summary (simulateLRU fc refs))"
proof -
  have "opt_faults (opt_run fc refs (length refs)) \<le> lru_faults (lru_run fc refs (length refs))"
  proof (rule sched_from_empty [OF assms, where F = "\<lambda>i. lru_frames (lru_run fc refs i)"
        and G = "\<lambda>i. lru_faults (lru_run fc refs i)"])
    show "demand_step fc (refs ! i) (lru_frames (lru_run fc refs i))
        (lru_faults (lru_run fc refs i)) (lru_frames (lru_run fc refs (Suc i)))
        (lru_faults (lru_run fc refs (Suc i)))" for i
      by (rule lru_demand [OF assms])
    show "length (lru_frames (lru_run fc refs i)) = fc \<and>
        pages_distinct (lru_frames (lru_run fc refs i))" for i
      using lru_inv_run [OF assms, of refs i] by (simp add: lru_inv_def trace_inv_def)
  qed (simp_all add: lru_run_def lru_init_def)
  then show ?thesis by (simp add: simulateOPT_def simulateLRU_def Let_def)
qed

lemma opt_le_clock:
  assumes "0 < fc"
  shows "\<exists>r. simulateCLOCK fc refs = Inr r \<and>
             faults (summary (simulateOPT fc refs)) \<le> faults (summary r)"
proof -
  have "opt_faults (opt_run fc refs (length refs)) \<le>
        clock_faults (clock_state_at fc refs (length refs))"
  proof (rule sched_from_empty [OF assms, where F = "\<lambda>i. clock_frames (clock_state_at fc refs i)"
        and G = "\<lambda>i. clock_faults (clock_state_at fc refs i)"])
    show "demand_step fc (refs ! i) (clock_frames (clock_state_at fc refs i))
        (clock_faults (clock_state_at fc refs i)) (clock_frames (clock_state_at fc refs (Suc i)))
        (clock_faults (clock_state_at fc refs (Suc i)))" for i
      by (rule clock_demand [OF assms])
    show "length (clock_frames (clock_state_at fc refs i)) = fc \<and>
        pages_distinct (clock_frames (clock_state_at fc refs i))" for i
      using clock_inv_state_at [OF assms, of refs i] by (simp add: clock_inv_def trace_inv_def)
  qed (simp_all add: clock_state_at_def clock_run_def clock_init_def)
  then show ?thesis
    by (simp add: simulateCLOCK_eq [OF assms] simulateOPT_def Let_def)
qed

section \<open>Properties of the simulator\<close>

subsection \<open>Belady's anomaly under FIFO\<close>

lemma fifo_belady_3:
  "summary (simulateFIFO 3 [1, 2, 3, 4, 1, 2, 5, 1, 2, 3, 4, 5]) = \<lparr>hits = 3, faults = 9\<rparr>"
  by code_simp

lemma fifo_belady_4:
  "summary (simulateFIFO 4 [1, 2, 3, 4, 1, 2, 5, 1, 2, 3, 4, 5]) = \<lparr>hits = 2, faults = 10\<rparr>"
  by code_simp

text \<open>
  Claim C6. On the references \<open>1 2 3 4 1 2 5 1 2 3 4 5\<close> the FIFO engine has 9 faults
  and 3 hits with 3 frames, and 10 faults and 2 hits with 4 frames: more frames, more
  faults.
\<close>

theorem fifo_belady_anomaly:
  "\<exists>r3 r4.
     simulate ''FIFO'' (JNum 3) [1, 2, 3, 4, 1, 2, 5, 1, 2, 3, 4, 5] = Inr r3 \<and>
     simulate ''FIFO'' (JNum 4) [1, 2, 3, 4, 1, 2, 5, 1, 2, 3, 4, 5] = Inr r4 \<and>
     summary r3 = \<lparr>hits = 3, faults = 9\<rparr> \<and>
     summary r4 = \<lparr>hits = 2, faults = 10\<rparr> \<and>
     faults (summary r3) < faults (summary r4)"
proof -
  let ?refs = "[1, 2, 3, 4, 1, 2, 5, 1, 2, 3, 4, 5] :: page list"
  have "simulate ''FIFO'' (JNum 3) ?refs = Inr (simulateFIFO 3 ?refs)"
    by (simp add: simulate_def assert_def)
  moreover have "simulate ''FIFO'' (JNum 4) ?refs = Inr (simulateFIFO 4 ?refs)"
    by (simp add: simulate_def assert_def)
  ultimately show ?thesis
    using fifo_belady_3 fifo_belady_4 by simp
qed

subsection \<open>The trace and its counters\<close>

text \<open>
  Claim C8. For each of the four policies, a capacity accepted by the dispatcher and a
  non-empty reference list, \<open>simulate\<close> returns a result; its trace has one step per
  reference, in order; each step has exactly one of \<open>hit\<close> and \<open>fault\<close> set; \<open>hits\<close>
  counts the hit steps, \<open>faults\<close> the fault steps, and together they count the
  references.
\<close>

theorem trace_counts:
  assumes "validFrames c" and "refs \<noteq> []"
    and "algoName \<in> {''FIFO'', ''LRU'', ''OPT'', ''CLOCK''}"
  shows "\<exists>r. simulate algoName c refs = Inr r \<and>
     length (steps r) = length refs \<and>
     (\<forall>i<length refs. index (steps r ! i) = i \<and> page (steps r ! i) = refs ! i) \<and>
     (\<forall>s \<in> set (steps r). hit s \<noteq> fault s) \<and>
     hits (summary r) + faults (summary r) = length refs \<and>
     hits (summary r) = length (filter hit (steps r)) \<and>
     faults (summary r) = length (filter fault (steps r))"
proof -
  from simulate_facts [OF assms] obtain r where
    r: "simulate algoName c refs = Inr r" "trace_facts (framesOf c) refs r"
    by blast
  from r(2) have "\<forall>s \<in> set (steps r). hit s \<noteq> fault s"
    by (auto simp: trace_facts_def in_set_conv_nth)
  with r show ?thesis
    by (auto simp: trace_facts_def)
qed

theorem trace_counts_witness:
  "validFrames (JNum 2) \<and> [1, 2, 1, 3, 2] \<noteq> ([] :: page list) \<and>
   ''LRU'' \<in> {''FIFO'', ''LRU'', ''OPT'', ''CLOCK''} \<and>
   (\<exists>r. simulate ''LRU'' (JNum 2) [1, 2, 1, 3, 2] = Inr r \<and>
     length (steps r) = length [1, 2, 1, 3, 2 :: page] \<and>
     (\<forall>i<length [1, 2, 1, 3, 2 :: page].
        index (steps r ! i) = i \<and> page (steps r ! i) = [1, 2, 1, 3, 2] ! i) \<and>
     (\<forall>s \<in> set (steps r). hit s \<noteq> fault s) \<and>
     hits (summary r) + faults (summary r) = length [1, 2, 1, 3, 2 :: page] \<and>
     hits (summary r) = length (filter hit (steps r)) \<and>
     faults (summary r) = length (filter fault (steps r)))"
proof -
  have h1: "validFrames (JNum 2)" by simp
  have h2: "[1, 2, 1, 3, 2] \<noteq> ([] :: page list)" by simp
  have h3: "''LRU'' \<in> {''FIFO'', ''LRU'', ''OPT'', ''CLOCK''}" by simp
  from trace_counts [OF h1 h2 h3] h1 h2 h3 show ?thesis by blast
qed

subsection \<open>The frame snapshots\<close>

text \<open>
  Claim C7. For each of the four policies and every accepted input, the snapshot of
  every step has exactly \<open>framesCount\<close> entries, holds no page twice, and is the frame
  table of the engine after that step.
\<close>

theorem snapshot_wellformed:
  assumes "validFrames c" and "refs \<noteq> []"
    and "algoName \<in> {''FIFO'', ''LRU'', ''OPT'', ''CLOCK''}"
  shows "\<exists>r. simulate algoName c refs = Inr r \<and>
     (\<forall>i<length refs.
        length (frames (steps r ! i)) = framesOf c \<and>
        pages_distinct (frames (steps r ! i)) \<and>
        frames (steps r ! i) = frames_after algoName (framesOf c) refs i)"
proof -
  from simulate_facts [OF assms] obtain r where
    r: "simulate algoName c refs = Inr r" "trace_facts (framesOf c) refs r"
    by blast
  have "frames (steps r ! i) = frames_after algoName (framesOf c) refs i" if "i < length refs" for i
    using simulate_snapshot [OF assms r(1) that] .
  with r show ?thesis
    by (auto simp: trace_facts_def)
qed

theorem snapshot_wellformed_witness:
  "validFrames (JNum 2) \<and> [1, 2, 1, 3, 2] \<noteq> ([] :: page list) \<and>
   ''CLOCK'' \<in> {''FIFO'', ''LRU'', ''OPT'', ''CLOCK''} \<and>
   (\<exists>r. simulate ''CLOCK'' (JNum 2) [1, 2, 1, 3, 2] = Inr r \<and>
     (\<forall>i<length [1, 2, 1, 3, 2 :: page].
        length (frames (steps r ! i)) = framesOf (JNum 2) \<and>
        pages_distinct (frames (steps r ! i)) \<and>
        frames (steps r ! i) = frames_after ''CLOCK'' (framesOf (JNum 2)) [1, 2, 1, 3, 2] i))"
proof -
  have h1: "validFrames (JNum 2)" by simp
  have h2: "[1, 2, 1, 3, 2] \<noteq> ([] :: page list)" by simp
  have h3: "''CLOCK'' \<in> {''FIFO'', ''LRU'', ''OPT'', ''CLOCK''}" by simp
  from snapshot_wellformed [OF h1 h2 h3] h1 h2 h3 show ?thesis by blast
qed

subsection \<open>Validation by the dispatcher\<close>

text \<open>
  Claim C9. \<open>simulate\<close> checks the capacity, then the reference list, then the policy
  name, and each check fails with an error of its own. A capacity that is not an integer
  between 1 and 50 (so 0, 51, 5/2, a non-finite number, a value that is not a number)
  fails with \<open>InvalidCapacity\<close>, whatever the other arguments are. An empty reference
  list, the capacity being accepted, fails with \<open>EmptyReferenceSequence\<close>. A policy name
  other than the four, the capacity and the reference list being accepted, fails with
  \<open>UnknownPolicy\<close>. The three errors differ pairwise. A failure is an error value and
  carries no trace: a result with a trace is returned only when all three arguments are
  accepted.
\<close>

theorem validation_errors:
  "(\<not> validFrames c \<longrightarrow> simulate algoName c refs = Inl InvalidCapacity) \<and>
   (validFrames c \<and> refs = [] \<longrightarrow> simulate algoName c refs = Inl EmptyReferenceSequence) \<and>
   (validFrames c \<and> refs \<noteq> [] \<and> algoName \<notin> {''FIFO'', ''LRU'', ''OPT'', ''CLOCK''} \<longrightarrow>
      simulate algoName c refs = Inl (UnknownPolicy algoName)) \<and>
   (\<forall>r. simulate algoName c refs = Inr r \<longrightarrow>
      validFrames c \<and> refs \<noteq> [] \<and> algoName \<in> {''FIFO'', ''LRU'', ''OPT'', ''CLOCK''}) \<and>
   (validFrames c \<longleftrightarrow> (\<exists>k::int. c = JNum (of_int k) \<and> 1 \<le> k \<and> k \<le> 50)) \<and>
   \<not> validFrames (JNum 0) \<and> \<not> validFrames (JNum 51) \<and> \<not> validFrames (JNum (5 / 2)) \<and>
   \<not> validFrames JNonFinite \<and> \<not> validFrames JNotNumber \<and>
   InvalidCapacity \<noteq> EmptyReferenceSequence \<and>
   InvalidCapacity \<noteq> UnknownPolicy name \<and>
   EmptyReferenceSequence \<noteq> UnknownPolicy name"
proof -
  have iff: "validFrames c \<longleftrightarrow> (\<exists>k::int. c = JNum (of_int k) \<and> 1 \<le> k \<and> k \<le> 50)"
  proof (cases c)
    case (JNum q)
    show ?thesis
    proof
      assume "validFrames c"
      with JNum have q: "of_int \<lfloor>q\<rfloor> = q" "1 \<le> q" "q \<le> 50" by simp_all
      from q(2) have "1 \<le> \<lfloor>q\<rfloor>" by (simp add: le_floor_iff)
      moreover from q(3) have "\<lfloor>q\<rfloor> \<le> 50" by (simp add: floor_le_iff)
      moreover have "c = JNum (of_int \<lfloor>q\<rfloor>)"
        unfolding q(1) by (rule JNum)
      ultimately show "\<exists>k::int. c = JNum (of_int k) \<and> 1 \<le> k \<and> k \<le> 50"
        by blast
    next
      assume "\<exists>k::int. c = JNum (of_int k) \<and> 1 \<le> k \<and> k \<le> 50"
      then show "validFrames c" by auto
    qed
  qed simp_all
  have frac: "\<not> validFrames (JNum (5 / 2))"
  proof -
    have "\<lfloor>5 / 2 :: rat\<rfloor> = 2" by (simp add: floor_eq_iff)
    then show ?thesis by simp
  qed
  have z: "\<not> validFrames (JNum 0)" "\<not> validFrames (JNum 51)"
    "\<not> validFrames JNonFinite" "\<not> validFrames JNotNumber"
    by simp_all
  have a: "\<not> validFrames c \<longrightarrow> simulate algoName c refs = Inl InvalidCapacity"
    by (simp add: simulate_def assert_def InvalidCapacity_def)
  have b: "validFrames c \<and> refs = [] \<longrightarrow> simulate algoName c refs = Inl EmptyReferenceSequence"
    by (simp add: simulate_def assert_def EmptyReferenceSequence_def)
  have c: "validFrames c \<and> refs \<noteq> [] \<and> algoName \<notin> {''FIFO'', ''LRU'', ''OPT'', ''CLOCK''} \<longrightarrow>
      simulate algoName c refs = Inl (UnknownPolicy algoName)"
    by (simp add: simulate_def assert_def UnknownPolicy_def)
  have ok: "\<forall>r. simulate algoName c refs = Inr r \<longrightarrow>
      validFrames c \<and> refs \<noteq> [] \<and> algoName \<in> {''FIFO'', ''LRU'', ''OPT'', ''CLOCK''}"
    by (auto simp: simulate_def assert_def split: if_splits)
  have d: "InvalidCapacity \<noteq> EmptyReferenceSequence"
    "InvalidCapacity \<noteq> UnknownPolicy name"
    "EmptyReferenceSequence \<noteq> UnknownPolicy name"
    by (simp_all add: InvalidCapacity_def EmptyReferenceSequence_def UnknownPolicy_def)
  show ?thesis
    by (intro conjI) (rule a b c ok iff z frac d)+
qed

theorem validation_errors_witness:
  "\<not> validFrames (JNum 51) \<and> validFrames (JNum 3) \<and> [1] \<noteq> ([] :: page list) \<and>
   ''MRU'' \<notin> {''FIFO'', ''LRU'', ''OPT'', ''CLOCK''} \<and>
   simulate ''FIFO'' (JNum 51) [1] = Inl InvalidCapacity \<and>
   simulate ''FIFO'' (JNum 0) [1] = Inl InvalidCapacity \<and>
   simulate ''FIFO'' (JNum (5 / 2)) [1] = Inl InvalidCapacity \<and>
   simulate ''FIFO'' (JNum 3) [] = Inl EmptyReferenceSequence \<and>
   simulate ''MRU'' (JNum 3) [1] = Inl (UnknownPolicy ''MRU'')"
proof -
  have v: "validFrames (JNum 3)" "\<not> validFrames (JNum 51)" "\<not> validFrames (JNum 0)" by simp_all
  have n: "''MRU'' \<notin> {''FIFO'', ''LRU'', ''OPT'', ''CLOCK''}" by simp
  have l: "[1] \<noteq> ([] :: page list)" by simp
  from validation_errors [of "JNum 51" "''FIFO''" "[1]"] v(2)
  have "simulate ''FIFO'' (JNum 51) [1] = Inl InvalidCapacity"
    by blast
  moreover from validation_errors [of "JNum 0" "''FIFO''" "[1]"] v(3)
  have "simulate ''FIFO'' (JNum 0) [1] = Inl InvalidCapacity"
    by blast
  moreover from validation_errors [of "JNum (5 / 2)" "''FIFO''" "[1]"]
  have "simulate ''FIFO'' (JNum (5 / 2)) [1] = Inl InvalidCapacity"
    by blast
  moreover from validation_errors [of "JNum 3" "''FIFO''" "[]"] v(1)
  have "simulate ''FIFO'' (JNum 3) [] = Inl EmptyReferenceSequence"
    by blast
  moreover from validation_errors [of "JNum 3" "''MRU''" "[1]"] v(1) n
  have "simulate ''MRU'' (JNum 3) [1] = Inl (UnknownPolicy ''MRU'')"
    by blast
  ultimately show ?thesis using v n l by blast
qed

subsection \<open>The victim of OPT\<close>

text \<open>
  Claim C2. At a fault of OPT with a full table at position \<open>i\<close>, the scan over the
  frames in ascending order computes for each occupant its next use after \<open>i\<close>
  (\<open>next_use_spec\<close>: the smallest later index, infinity when there is none) and returns
  the first frame whose next use is maximal: no frame has a later next use, and every
  frame before it has a strictly earlier one. The occupant of that frame is evicted and
  the requested page takes its place.
\<close>

theorem opt_victim_rule:
  assumes "0 < fc" and "i < length refs"
    and "st = opt_run fc refs i" and "st' = opt_run fc refs (Suc i)"
    and "indexOf (opt_frames st) (Some (refs ! i)) = None"
    and "indexOf (opt_frames st) None = None"
  shows "\<exists>v<fc.
     opt_scan fc refs i (opt_frames st) =
       (v, opt_frames st ! v, next_use_spec refs i (opt_frames st ! v)) \<and>
     (\<forall>fi<fc. next_use_spec refs i (opt_frames st ! fi) \<le> next_use_spec refs i (opt_frames st ! v)) \<and>
     (\<forall>fi<v. next_use_spec refs i (opt_frames st ! fi) < next_use_spec refs i (opt_frames st ! v)) \<and>
     opt_frames st' = (opt_frames st)[v := Some (refs ! i)] \<and>
     fault (last (opt_steps st')) \<and>
     replaced (last (opt_steps st')) = opt_frames st ! v \<and>
     replacedIndex (last (opt_steps st')) = Some (int v)"
proof -
  from opt_scan_first_max [OF assms(1), of refs i "opt_frames st"]
  obtain v where v: "v < fc"
    "opt_scan fc refs i (opt_frames st) =
       (v, opt_frames st ! v, nextUse_from refs (opt_frames st ! v) (i + 1))"
    "\<forall>fi<fc. nextUse_from refs (opt_frames st ! fi) (i + 1) \<le> nextUse_from refs (opt_frames st ! v) (i + 1)"
    "\<forall>fi<v. nextUse_from refs (opt_frames st ! fi) (i + 1) < nextUse_from refs (opt_frames st ! v) (i + 1)"
    by blast
  have "st' = opt_step fc refs st i"
    by (simp add: assms(3,4) opt_run_Suc)
  then have st': "st' = st\<lparr>opt_frames := (opt_frames st)[v := Some (refs ! i)],
        opt_faults := opt_faults st + 1,
        opt_steps := opt_steps st @
          [\<lparr>index = i, page = refs ! i,
            frames = (opt_frames st)[v := Some (refs ! i)],
            hit = False, fault = True,
            replaced = opt_frames st ! v, replacedIndex = Some (int v), meta = None\<rparr>]\<rparr>"
    by (simp add: opt_step_evict [OF assms(5,6) v(2)])
  have "opt_frames st' = (opt_frames st)[v := Some (refs ! i)]"
    "fault (last (opt_steps st'))"
    "replaced (last (opt_steps st')) = opt_frames st ! v"
    "replacedIndex (last (opt_steps st')) = Some (int v)"
    by (subst st', simp)+
  with v show ?thesis
    unfolding nextUse_from_spec by (intro exI [of _ v]) simp
qed

theorem opt_victim_rule_witness:
  "(0::nat) < 2 \<and> 3 < length [1, 2, 1, 3, 2 :: page] \<and>
   indexOf (opt_frames (opt_run 2 [1, 2, 1, 3, 2] 3)) (Some ([1, 2, 1, 3, 2] ! 3)) = None \<and>
   indexOf (opt_frames (opt_run 2 [1, 2, 1, 3, 2] 3)) None = None \<and>
   (\<exists>v<2.
     opt_scan 2 [1, 2, 1, 3, 2] 3 (opt_frames (opt_run 2 [1, 2, 1, 3, 2] 3)) =
       (v, opt_frames (opt_run 2 [1, 2, 1, 3, 2] 3) ! v,
        next_use_spec [1, 2, 1, 3, 2] 3 (opt_frames (opt_run 2 [1, 2, 1, 3, 2] 3) ! v)) \<and>
     (\<forall>fi<2. next_use_spec [1, 2, 1, 3, 2] 3 (opt_frames (opt_run 2 [1, 2, 1, 3, 2] 3) ! fi)
        \<le> next_use_spec [1, 2, 1, 3, 2] 3 (opt_frames (opt_run 2 [1, 2, 1, 3, 2] 3) ! v)) \<and>
     (\<forall>fi<v. next_use_spec [1, 2, 1, 3, 2] 3 (opt_frames (opt_run 2 [1, 2, 1, 3, 2] 3) ! fi)
        < next_use_spec [1, 2, 1, 3, 2] 3 (opt_frames (opt_run 2 [1, 2, 1, 3, 2] 3) ! v)) \<and>
     opt_frames (opt_run 2 [1, 2, 1, 3, 2] (Suc 3)) =
       (opt_frames (opt_run 2 [1, 2, 1, 3, 2] 3))[v := Some ([1, 2, 1, 3, 2] ! 3)] \<and>
     fault (last (opt_steps (opt_run 2 [1, 2, 1, 3, 2] (Suc 3)))) \<and>
     replaced (last (opt_steps (opt_run 2 [1, 2, 1, 3, 2] (Suc 3)))) =
       opt_frames (opt_run 2 [1, 2, 1, 3, 2] 3) ! v \<and>
     replacedIndex (last (opt_steps (opt_run 2 [1, 2, 1, 3, 2] (Suc 3)))) = Some (int v))"
proof -
  let ?refs = "[1, 2, 1, 3, 2] :: page list"
  have h1: "(0::nat) < 2" by simp
  have h2: "3 < length ?refs" by simp
  have h3: "indexOf (opt_frames (opt_run 2 ?refs 3)) (Some (?refs ! 3)) = None"
    by code_simp
  have h4: "indexOf (opt_frames (opt_run 2 ?refs 3)) None = None"
    by code_simp
  from opt_victim_rule [OF h1 h2 refl refl h3 h4] h1 h2 h3 h4 show ?thesis by blast
qed

subsection \<open>The victim and the bookkeeping of LRU\<close>

text \<open>
  Claim C3. After every step of LRU the requested page is recorded with the current
  position; a hit and a first fill change the bookkeeping in no other way. At a fault
  with a full table the scan over all frames in ascending order returns the first frame
  whose occupant has the least last-used index (no frame has a smaller one, every frame
  before it has a strictly larger one); the occupant is evicted, its entry is removed
  from the bookkeeping, and the requested page is recorded with the current position.
\<close>

theorem lru_victim_rule:
  assumes "0 < fc" and "i < length refs"
    and "st = lru_run fc refs i" and "st' = lru_run fc refs (Suc i)"
  shows "lru_lastUsed st' (Some (refs ! i)) = Some i \<and>
     (indexOf (lru_frames st) (Some (refs ! i)) \<noteq> None \<or> indexOf (lru_frames st) None \<noteq> None \<longrightarrow>
        lru_lastUsed st' = (lru_lastUsed st)(Some (refs ! i) \<mapsto> i)) \<and>
     (indexOf (lru_frames st) (Some (refs ! i)) = None \<and> indexOf (lru_frames st) None = None \<longrightarrow>
        (\<exists>v<fc. \<exists>t.
           lru_scan fc (lru_frames st) (lru_lastUsed st) = (int v, lru_frames st ! v, Fin (int t)) \<and>
           lru_lastUsed st (lru_frames st ! v) = Some t \<and>
           (\<forall>fi<fc. \<exists>u. lru_lastUsed st (lru_frames st ! fi) = Some u \<and> t \<le> u) \<and>
           (\<forall>fi<v. \<exists>u. lru_lastUsed st (lru_frames st ! fi) = Some u \<and> t < u) \<and>
           lru_frames st' = (lru_frames st)[v := Some (refs ! i)] \<and>
           lru_lastUsed st' = ((lru_lastUsed st)(lru_frames st ! v := None))(Some (refs ! i) \<mapsto> i) \<and>
           fault (last (lru_steps st')) \<and>
           replaced (last (lru_steps st')) = lru_frames st ! v \<and>
           replacedIndex (last (lru_steps st')) = Some (int v)))"
proof -
  let ?fr = "lru_frames st" and ?lu = "lru_lastUsed st" and ?p = "refs ! i"
  have stp: "st' = lru_step fc refs st i"
    by (simp add: assms(3,4) lru_run_Suc)
  from lru_inv_run [OF assms(1), of refs i] assms(3)
  have tr: "trace_inv fc refs i ?fr (lru_hits st) (lru_faults st) (lru_steps st)"
    and dm: "dom ?lu = set ?fr - {None}"
    by (simp_all add: lru_inv_def)
  from tr have len: "length ?fr = fc" by (simp add: trace_inv_def)
  show ?thesis
  proof (cases "indexOf ?fr (Some ?p)")
    case (Some h)
    have "lru_lastUsed st' = ?lu(Some ?p \<mapsto> i)"
      by (subst stp, subst lru_step_hit [OF Some]) simp
    with Some show ?thesis by simp
  next
    case miss: None
    show ?thesis
    proof (cases "indexOf ?fr None")
      case (Some e)
      have "lru_lastUsed st' = ?lu(Some ?p \<mapsto> i)"
        by (subst stp, subst lru_step_fill [OF miss Some]) simp
      with Some show ?thesis by simp
    next
      case None
      then have full: "None \<notin> set ?fr" by (simp add: indexOf_None_iff)
      have has: "\<exists>u. ?lu (?fr ! fi) = Some u" if "fi < fc" for fi
      proof -
        from that len have "?fr ! fi \<in> set ?fr" by simp
        with full dm have "?fr ! fi \<in> dom ?lu" by auto
        then show ?thesis by blast
      qed
      from lru_scan_first_min [OF assms(1), of ?fr ?lu]
      obtain v where v: "v < fc"
        "lru_scan fc ?fr ?lu = (int v, ?fr ! v, lru_time ?lu (?fr ! v))"
        "\<forall>fi<fc. lru_time ?lu (?fr ! v) \<le> lru_time ?lu (?fr ! fi)"
        "\<forall>fi<v. lru_time ?lu (?fr ! v) < lru_time ?lu (?fr ! fi)"
        by blast
      from has [OF v(1)] obtain t where t: "?lu (?fr ! v) = Some t" by blast
      then have tv: "lru_time ?lu (?fr ! v) = Fin (int t)" by (simp add: lru_time_def)
      have le: "\<forall>fi<fc. \<exists>u. ?lu (?fr ! fi) = Some u \<and> t \<le> u"
      proof (intro allI impI)
        fix fi assume fi: "fi < fc"
        from has [OF fi] obtain u where u: "?lu (?fr ! fi) = Some u" by blast
        with v(3) fi tv have "Fin (int t) \<le> Fin (int u)" by (auto simp: lru_time_def)
        with u show "\<exists>u. ?lu (?fr ! fi) = Some u \<and> t \<le> u" by simp
      qed
      have lt: "\<forall>fi<v. \<exists>u. ?lu (?fr ! fi) = Some u \<and> t < u"
      proof (intro allI impI)
        fix fi assume fi: "fi < v"
        with v(1) have "fi < fc" by simp
        from has [OF this] obtain u where u: "?lu (?fr ! fi) = Some u" by blast
        with v(4) fi tv have "Fin (int t) < Fin (int u)" by (auto simp: lru_time_def)
        with u show "\<exists>u. ?lu (?fr ! fi) = Some u \<and> t < u" by simp
      qed
      note ev = lru_step_evict [OF miss None v(2)]
      have a: "lru_frames st' = ?fr[v := Some ?p]"
        "lru_lastUsed st' = (?lu(?fr ! v := None))(Some ?p \<mapsto> i)"
        "fault (last (lru_steps st'))"
        "replaced (last (lru_steps st')) = ?fr ! v"
        "replacedIndex (last (lru_steps st')) = Some (int v)"
        by (subst stp, subst ev, simp)+
      have "\<exists>v<fc. \<exists>t.
           lru_scan fc ?fr ?lu = (int v, ?fr ! v, Fin (int t)) \<and>
           ?lu (?fr ! v) = Some t \<and>
           (\<forall>fi<fc. \<exists>u. ?lu (?fr ! fi) = Some u \<and> t \<le> u) \<and>
           (\<forall>fi<v. \<exists>u. ?lu (?fr ! fi) = Some u \<and> t < u) \<and>
           lru_frames st' = ?fr[v := Some ?p] \<and>
           lru_lastUsed st' = (?lu(?fr ! v := None))(Some ?p \<mapsto> i) \<and>
           fault (last (lru_steps st')) \<and>
           replaced (last (lru_steps st')) = ?fr ! v \<and>
           replacedIndex (last (lru_steps st')) = Some (int v)"
        using v(1,2) t tv le lt a
        by (intro exI [of _ v] conjI exI [of _ t]) simp_all
      moreover from a(2) have "lru_lastUsed st' (Some ?p) = Some i" by simp
      ultimately show ?thesis using miss None by simp
    qed
  qed
qed

theorem lru_victim_rule_witness:
  "(0::nat) < 2 \<and> 3 < length [1, 2, 1, 3, 2 :: page] \<and> 2 < length [1, 2, 1, 3, 2 :: page] \<and>
   indexOf (lru_frames (lru_run 2 [1, 2, 1, 3, 2] 2)) (Some ([1, 2, 1, 3, 2] ! 2)) \<noteq> None \<and>
   lru_lastUsed (lru_run 2 [1, 2, 1, 3, 2] (Suc 2)) =
     (lru_lastUsed (lru_run 2 [1, 2, 1, 3, 2] 2))(Some ([1, 2, 1, 3, 2] ! 2) \<mapsto> 2) \<and>
   indexOf (lru_frames (lru_run 2 [1, 2, 1, 3, 2] 3)) (Some ([1, 2, 1, 3, 2] ! 3)) = None \<and>
   indexOf (lru_frames (lru_run 2 [1, 2, 1, 3, 2] 3)) None = None \<and>
   lru_lastUsed (lru_run 2 [1, 2, 1, 3, 2] (Suc 3)) (Some ([1, 2, 1, 3, 2] ! 3)) = Some 3 \<and>
   (\<exists>v<2. \<exists>t.
      lru_scan 2 (lru_frames (lru_run 2 [1, 2, 1, 3, 2] 3)) (lru_lastUsed (lru_run 2 [1, 2, 1, 3, 2] 3)) =
        (int v, lru_frames (lru_run 2 [1, 2, 1, 3, 2] 3) ! v, Fin (int t)) \<and>
      lru_frames (lru_run 2 [1, 2, 1, 3, 2] (Suc 3)) =
        (lru_frames (lru_run 2 [1, 2, 1, 3, 2] 3))[v := Some ([1, 2, 1, 3, 2] ! 3)] \<and>
      replaced (last (lru_steps (lru_run 2 [1, 2, 1, 3, 2] (Suc 3)))) =
        lru_frames (lru_run 2 [1, 2, 1, 3, 2] 3) ! v)"
proof -
  let ?refs = "[1, 2, 1, 3, 2] :: page list"
  have h1: "(0::nat) < 2" by simp
  have h2: "3 < length ?refs" and h2': "2 < length ?refs" by simp_all
  have h3: "indexOf (lru_frames (lru_run 2 ?refs 3)) (Some (?refs ! 3)) = None"
    by code_simp
  have h4: "indexOf (lru_frames (lru_run 2 ?refs 3)) None = None"
    by code_simp
  have h5: "indexOf (lru_frames (lru_run 2 ?refs 2)) (Some (?refs ! 2)) \<noteq> None"
    by code_simp
  note a = lru_victim_rule [OF h1 h2' refl refl]
  note b = lru_victim_rule [OF h1 h2 refl refl]
  from a h5 have "lru_lastUsed (lru_run 2 ?refs (Suc 2)) =
     (lru_lastUsed (lru_run 2 ?refs 2))(Some (?refs ! 2) \<mapsto> 2)"
    by blast
  moreover from b h3 h4 have "\<exists>v<2. \<exists>t.
      lru_scan 2 (lru_frames (lru_run 2 ?refs 3)) (lru_lastUsed (lru_run 2 ?refs 3)) =
        (int v, lru_frames (lru_run 2 ?refs 3) ! v, Fin (int t)) \<and>
      lru_frames (lru_run 2 ?refs (Suc 3)) =
        (lru_frames (lru_run 2 ?refs 3))[v := Some (?refs ! 3)] \<and>
      replaced (last (lru_steps (lru_run 2 ?refs (Suc 3)))) =
        lru_frames (lru_run 2 ?refs 3) ! v"
    by blast
  moreover from b have "lru_lastUsed (lru_run 2 ?refs (Suc 3)) (Some (?refs ! 3)) = Some 3"
    by blast
  ultimately show ?thesis using h1 h2 h2' h3 h4 h5 by blast
qed

text \<open>
  Claim C10. In every state of the LRU loop the keys of the bookkeeping map are exactly
  the pages in the frames. So at a fault with a full table every frame holds a page with
  an entry, and the scan reads a finite time for it, never the fallback \<open>-Infinity\<close>.
\<close>

theorem lru_bookkeeping_domain:
  assumes "0 < fc" and "i \<le> length refs"
    and "st = lru_run fc refs i"
  shows "dom (lru_lastUsed st) = set (lru_frames st) - {None} \<and>
         (i < length refs \<and>
          indexOf (lru_frames st) (Some (refs ! i)) = None \<and> indexOf (lru_frames st) None = None \<longrightarrow>
            (\<forall>fi<fc. \<exists>t. lru_frames st ! fi \<noteq> None \<and>
                lru_lastUsed st (lru_frames st ! fi) = Some t \<and>
                lru_time (lru_lastUsed st) (lru_frames st ! fi) = Fin (int t)))"
proof -
  from lru_inv_run [OF assms(1), of refs i] assms(3)
  have tr: "trace_inv fc refs i (lru_frames st) (lru_hits st) (lru_faults st) (lru_steps st)"
    and dm: "dom (lru_lastUsed st) = set (lru_frames st) - {None}"
    by (simp_all add: lru_inv_def)
  from tr have len: "length (lru_frames st) = fc" by (simp add: trace_inv_def)
  have "\<exists>t. lru_frames st ! fi \<noteq> None \<and> lru_lastUsed st (lru_frames st ! fi) = Some t \<and>
            lru_time (lru_lastUsed st) (lru_frames st ! fi) = Fin (int t)"
    if full: "indexOf (lru_frames st) None = None" and fi: "fi < fc" for fi
  proof -
    from full have "None \<notin> set (lru_frames st)" by (simp add: indexOf_None_iff)
    moreover from fi len have mem: "lru_frames st ! fi \<in> set (lru_frames st)" by simp
    ultimately have ne: "lru_frames st ! fi \<noteq> None" by metis
    with mem dm have "lru_frames st ! fi \<in> dom (lru_lastUsed st)" by simp
    then obtain t where "lru_lastUsed st (lru_frames st ! fi) = Some t" by blast
    with ne show ?thesis by (simp add: lru_time_def)
  qed
  with dm show ?thesis by blast
qed

theorem lru_bookkeeping_domain_witness:
  "(0::nat) < 2 \<and> 3 \<le> length [1, 2, 1, 3, 2 :: page] \<and> 3 < length [1, 2, 1, 3, 2 :: page] \<and>
   indexOf (lru_frames (lru_run 2 [1, 2, 1, 3, 2] 3)) (Some ([1, 2, 1, 3, 2] ! 3)) = None \<and>
   indexOf (lru_frames (lru_run 2 [1, 2, 1, 3, 2] 3)) None = None \<and>
   dom (lru_lastUsed (lru_run 2 [1, 2, 1, 3, 2] 3)) = set (lru_frames (lru_run 2 [1, 2, 1, 3, 2] 3)) - {None} \<and>
   (\<exists>t. lru_frames (lru_run 2 [1, 2, 1, 3, 2] 3) ! 0 \<noteq> None \<and>
       lru_lastUsed (lru_run 2 [1, 2, 1, 3, 2] 3) (lru_frames (lru_run 2 [1, 2, 1, 3, 2] 3) ! 0) = Some t \<and>
       lru_time (lru_lastUsed (lru_run 2 [1, 2, 1, 3, 2] 3)) (lru_frames (lru_run 2 [1, 2, 1, 3, 2] 3) ! 0) = Fin (int t)) \<and>
   (\<exists>t. lru_frames (lru_run 2 [1, 2, 1, 3, 2] 3) ! 1 \<noteq> None \<and>
       lru_lastUsed (lru_run 2 [1, 2, 1, 3, 2] 3) (lru_frames (lru_run 2 [1, 2, 1, 3, 2] 3) ! 1) = Some t \<and>
       lru_time (lru_lastUsed (lru_run 2 [1, 2, 1, 3, 2] 3)) (lru_frames (lru_run 2 [1, 2, 1, 3, 2] 3) ! 1) = Fin (int t))"
proof -
  let ?refs = "[1, 2, 1, 3, 2] :: page list"
  have h1: "(0::nat) < 2" by simp
  have h2: "3 \<le> length ?refs" by simp
  have h2': "3 < length ?refs" by simp
  have h3: "indexOf (lru_frames (lru_run 2 ?refs 3)) (Some (?refs ! 3)) = None"
    by code_simp
  have h4: "indexOf (lru_frames (lru_run 2 ?refs 3)) None = None"
    by code_simp
  have h5: "(0::nat) < 2" "(1::nat) < 2" by simp_all
  from lru_bookkeeping_domain [OF h1 h2 refl] h1 h2 h2' h3 h4 h5 show ?thesis by blast
qed

subsection \<open>The scan of CLOCK\<close>

text \<open>
  Claim C4. With at least one frame a run of CLOCK never throws: \<open>simulateCLOCK\<close>
  returns a result and every step of the loop has a next state. At every fault with a
  full table the scan reaches a frame with bit 0 and evicts there: it passes \<open>k\<close> frames
  from the hand on, all with bit 1, and stops at the frame \<open>v\<close> that the hand has then
  reached, whose bit is 0 at that moment (it was 0 before, or \<open>k\<close> is a full turn and
  the scan has cleared it). The scan returns after \<open>k + 1 \<le> 2 * framesCount\<close>
  iterations with the requested page in frame \<open>v\<close>, the bit of \<open>v\<close> set, and the hand
  behind \<open>v\<close>; that is the table, the bit vector and the hand of the next state.
\<close>

theorem clock_scan_bound:
  assumes "0 < fc" and "i < length refs"
  shows "(\<exists>r. simulateCLOCK fc refs = Inr r) \<and>
     (\<exists>st st'. clock_run fc refs i = Inr st \<and> clock_run fc refs (Suc i) = Inr st' \<and>
        (indexOf (clock_frames st) (Some (refs ! i)) = None \<and>
         indexOf (clock_frames st) None = None \<longrightarrow>
           (\<exists>k v. k \<le> fc \<and> k + 1 \<le> 2 * fc \<and> v = (clock_hand st + k) mod fc \<and> v < fc \<and>
              (\<forall>j<k. clock_refBits st ! ((clock_hand st + j) mod fc) = 1) \<and>
              (k < fc \<longrightarrow> clock_refBits st ! v = 0) \<and>
              clock_cleared fc (clock_refBits st) (clock_hand st) k ! v = 0 \<and>
              clock_scan fc (refs ! i) (clock_frames st) (clock_refBits st) (clock_hand st) 0 =
                Inr \<lparr>ev_frames = (clock_frames st)[v := Some (refs ! i)],
                     ev_refBits = (clock_cleared fc (clock_refBits st) (clock_hand st) k)[v := 1],
                     ev_hand = (v + 1) mod fc,
                     ev_victimIndex = v,
                     ev_victimPage = clock_frames st ! v,
                     ev_scans = k + 1\<rparr> \<and>
              clock_frames st' = (clock_frames st)[v := Some (refs ! i)] \<and>
              clock_frames st' ! v = Some (refs ! i) \<and>
              clock_refBits st' = (clock_cleared fc (clock_refBits st) (clock_hand st) k)[v := 1] \<and>
              clock_hand st' = (v + 1) mod fc \<and>
              clock_faults st' = clock_faults st + 1)))"
proof -
  let ?st = "clock_state_at fc refs i" and ?st' = "clock_state_at fc refs (Suc i)"
  let ?fr = "clock_frames ?st" and ?bits = "clock_refBits ?st" and ?hd = "clock_hand ?st"
  let ?p = "refs ! i"
  have run: "clock_run fc refs i = Inr ?st" "clock_run fc refs (Suc i) = Inr ?st'"
    by (rule clock_run_state_at [OF assms(1)])+
  have stp: "clock_step fc refs ?st i = Inr ?st'"
    by (rule clock_state_at_Suc [OF assms(1)])
  from clock_inv_state_at [OF assms(1), of refs i]
  have bl: "length ?bits = fc" and hd: "?hd < fc" and b01: "bits01 ?bits"
    and tr: "trace_inv fc refs i ?fr (clock_hits ?st) (clock_faults ?st) (clock_steps ?st)"
    by (simp_all add: clock_inv_def)
  from tr have len: "length ?fr = fc" by (simp add: trace_inv_def)
  have ret: "\<exists>r. simulateCLOCK fc refs = Inr r"
    by (simp add: simulateCLOCK_eq [OF assms(1)])
  have ev: "indexOf ?fr (Some ?p) = None \<and> indexOf ?fr None = None \<longrightarrow>
           (\<exists>k v. k \<le> fc \<and> k + 1 \<le> 2 * fc \<and> v = (?hd + k) mod fc \<and> v < fc \<and>
              (\<forall>j<k. ?bits ! ((?hd + j) mod fc) = 1) \<and>
              (k < fc \<longrightarrow> ?bits ! v = 0) \<and>
              clock_cleared fc ?bits ?hd k ! v = 0 \<and>
              clock_scan fc ?p ?fr ?bits ?hd 0 =
                Inr \<lparr>ev_frames = ?fr[v := Some ?p],
                     ev_refBits = (clock_cleared fc ?bits ?hd k)[v := 1],
                     ev_hand = (v + 1) mod fc,
                     ev_victimIndex = v,
                     ev_victimPage = ?fr ! v,
                     ev_scans = k + 1\<rparr> \<and>
              clock_frames ?st' = ?fr[v := Some ?p] \<and>
              clock_frames ?st' ! v = Some ?p \<and>
              clock_refBits ?st' = (clock_cleared fc ?bits ?hd k)[v := 1] \<and>
              clock_hand ?st' = (v + 1) mod fc \<and>
              clock_faults ?st' = clock_faults ?st + 1)"
  proof (intro impI, elim conjE)
    assume miss: "indexOf ?fr (Some ?p) = None" and full: "indexOf ?fr None = None"
    from clock_scan_total [OF hd bl, of ?p ?fr]
    obtain k where k: "k \<le> fc" "\<forall>j<k. ?bits ! ((?hd + j) mod fc) \<noteq> 0"
      "k < fc \<longrightarrow> ?bits ! ((?hd + k) mod fc) = 0"
      "clock_cleared fc ?bits ?hd k ! ((?hd + k) mod fc) = 0"
      and sc: "clock_scan fc ?p ?fr ?bits ?hd 0 =
           Inr \<lparr>ev_frames = ?fr[(?hd + k) mod fc := Some ?p],
                ev_refBits = (clock_cleared fc ?bits ?hd k)[(?hd + k) mod fc := 1],
                ev_hand = ((?hd + k) mod fc + 1) mod fc,
                ev_victimIndex = (?hd + k) mod fc,
                ev_victimPage = ?fr ! ((?hd + k) mod fc),
                ev_scans = k + 1\<rparr>"
      by blast
    let ?v = "(?hd + k) mod fc"
    let ?bits' = "(clock_cleared fc ?bits ?hd k)[?v := 1]"
    let ?s = "\<lparr>index = i, page = ?p, frames = ?fr[?v := Some ?p],
               hit = False, fault = True, replaced = ?fr ! ?v,
               replacedIndex = Some (int ?v),
               meta = Some \<lparr>refBits = ?bits', hand = (?v + 1) mod fc\<rparr>\<rparr>"
    from stp have eq: "?st' = ?st\<lparr>clock_frames := ?fr[?v := Some ?p],
           clock_refBits := ?bits',
           clock_hand := (?v + 1) mod fc,
           clock_faults := clock_faults ?st + 1,
           clock_steps := clock_steps ?st @ [?s]\<rparr>"
      by (simp add: clock_step_evict [OF miss full sc])
    have a: "clock_refBits ?st' = ?bits'" "clock_hand ?st' = (?v + 1) mod fc"
      "clock_frames ?st' = ?fr[?v := Some ?p]" "clock_faults ?st' = clock_faults ?st + 1"
      by (subst eq, simp)+
    have v: "?v < fc" using assms(1) by simp
    with len a(3) have put: "clock_frames ?st' ! ?v = Some ?p" by simp
    have ones: "\<forall>j<k. ?bits ! ((?hd + j) mod fc) = 1"
    proof (intro allI impI)
      fix j assume "j < k"
      with k(2) have "?bits ! ((?hd + j) mod fc) \<noteq> 0" by blast
      moreover have "(?hd + j) mod fc < length ?bits" using bl assms(1) by simp
      ultimately show "?bits ! ((?hd + j) mod fc) = 1"
        using bits01_nth [OF b01] by blast
    qed
    have bound: "k + 1 \<le> 2 * fc" using k(1) assms(1) by simp
    show "\<exists>k v. k \<le> fc \<and> k + 1 \<le> 2 * fc \<and> v = (?hd + k) mod fc \<and> v < fc \<and>
              (\<forall>j<k. ?bits ! ((?hd + j) mod fc) = 1) \<and>
              (k < fc \<longrightarrow> ?bits ! v = 0) \<and>
              clock_cleared fc ?bits ?hd k ! v = 0 \<and>
              clock_scan fc ?p ?fr ?bits ?hd 0 =
                Inr \<lparr>ev_frames = ?fr[v := Some ?p],
                     ev_refBits = (clock_cleared fc ?bits ?hd k)[v := 1],
                     ev_hand = (v + 1) mod fc,
                     ev_victimIndex = v,
                     ev_victimPage = ?fr ! v,
                     ev_scans = k + 1\<rparr> \<and>
              clock_frames ?st' = ?fr[v := Some ?p] \<and>
              clock_frames ?st' ! v = Some ?p \<and>
              clock_refBits ?st' = (clock_cleared fc ?bits ?hd k)[v := 1] \<and>
              clock_hand ?st' = (v + 1) mod fc \<and>
              clock_faults ?st' = clock_faults ?st + 1"
      using k(1,3,4) bound v ones sc a put
      by (intro exI [of _ k] exI [of _ ?v] conjI) simp_all
  qed
  show ?thesis
    by (intro conjI exI [of _ ?st] exI [of _ ?st']) (rule ret run ev)+
qed

theorem clock_scan_bound_witness:
  "(0::nat) < 2 \<and> 3 < length [1, 2, 1, 3, 2 :: page] \<and>
   (\<exists>r. simulateCLOCK 2 [1, 2, 1, 3, 2] = Inr r) \<and>
   (\<exists>st st'. clock_run 2 [1, 2, 1, 3, 2] 3 = Inr st \<and>
      clock_run 2 [1, 2, 1, 3, 2] (Suc 3) = Inr st' \<and>
      indexOf (clock_frames st) (Some ([1, 2, 1, 3, 2] ! 3)) = None \<and>
      indexOf (clock_frames st) None = None \<and>
      (\<exists>k v. k \<le> 2 \<and> k + 1 \<le> 2 * 2 \<and> v = (clock_hand st + k) mod 2 \<and> v < 2 \<and>
         clock_cleared 2 (clock_refBits st) (clock_hand st) k ! v = 0 \<and>
         clock_scan 2 ([1, 2, 1, 3, 2] ! 3) (clock_frames st) (clock_refBits st) (clock_hand st) 0 =
           Inr \<lparr>ev_frames = (clock_frames st)[v := Some ([1, 2, 1, 3, 2] ! 3)],
                ev_refBits = (clock_cleared 2 (clock_refBits st) (clock_hand st) k)[v := 1],
                ev_hand = (v + 1) mod 2,
                ev_victimIndex = v,
                ev_victimPage = clock_frames st ! v,
                ev_scans = k + 1\<rparr> \<and>
         clock_frames st' = (clock_frames st)[v := Some ([1, 2, 1, 3, 2] ! 3)] \<and>
         clock_hand st' = (v + 1) mod 2))"
proof -
  let ?refs = "[1, 2, 1, 3, 2] :: page list"
  have h1: "(0::nat) < 2" by simp
  have h2: "3 < length ?refs" by simp
  have run: "(case clock_run 2 ?refs 3 of Inr st \<Rightarrow> clock_frames st | Inl e \<Rightarrow> []) =
             [Some 1, Some 2]"
    by code_simp
  from clock_scan_bound [OF h1 h2] obtain st st' where
    r: "\<exists>r. simulateCLOCK 2 ?refs = Inr r"
    and st: "clock_run 2 ?refs 3 = Inr st" "clock_run 2 ?refs (Suc 3) = Inr st'"
    and c: "indexOf (clock_frames st) (Some (?refs ! 3)) = None \<and>
         indexOf (clock_frames st) None = None \<longrightarrow>
           (\<exists>k v. k \<le> 2 \<and> k + 1 \<le> 2 * 2 \<and> v = (clock_hand st + k) mod 2 \<and> v < 2 \<and>
              (\<forall>j<k. clock_refBits st ! ((clock_hand st + j) mod 2) = 1) \<and>
              (k < 2 \<longrightarrow> clock_refBits st ! v = 0) \<and>
              clock_cleared 2 (clock_refBits st) (clock_hand st) k ! v = 0 \<and>
              clock_scan 2 (?refs ! 3) (clock_frames st) (clock_refBits st) (clock_hand st) 0 =
                Inr \<lparr>ev_frames = (clock_frames st)[v := Some (?refs ! 3)],
                     ev_refBits = (clock_cleared 2 (clock_refBits st) (clock_hand st) k)[v := 1],
                     ev_hand = (v + 1) mod 2,
                     ev_victimIndex = v,
                     ev_victimPage = clock_frames st ! v,
                     ev_scans = k + 1\<rparr> \<and>
              clock_frames st' = (clock_frames st)[v := Some (?refs ! 3)] \<and>
              clock_frames st' ! v = Some (?refs ! 3) \<and>
              clock_refBits st' = (clock_cleared 2 (clock_refBits st) (clock_hand st) k)[v := 1] \<and>
              clock_hand st' = (v + 1) mod 2 \<and>
              clock_faults st' = clock_faults st + 1)"
    by blast
  from run have fr: "clock_frames st = [Some 1, Some 2]" by (simp add: st(1))
  have h: "indexOf (clock_frames st) (Some (?refs ! 3)) = None"
    "indexOf (clock_frames st) None = None" by (simp_all add: fr)
  with c obtain k v where "k \<le> 2" "k + 1 \<le> 2 * 2" "v = (clock_hand st + k) mod 2" "v < 2"
    "clock_cleared 2 (clock_refBits st) (clock_hand st) k ! v = 0"
    "clock_scan 2 (?refs ! 3) (clock_frames st) (clock_refBits st) (clock_hand st) 0 =
       Inr \<lparr>ev_frames = (clock_frames st)[v := Some (?refs ! 3)],
            ev_refBits = (clock_cleared 2 (clock_refBits st) (clock_hand st) k)[v := 1],
            ev_hand = (v + 1) mod 2,
            ev_victimIndex = v,
            ev_victimPage = clock_frames st ! v,
            ev_scans = k + 1\<rparr>"
    "clock_frames st' = (clock_frames st)[v := Some (?refs ! 3)]"
    "clock_hand st' = (v + 1) mod 2"
    by blast
  with st h r h1 h2 show ?thesis by blast
qed

text \<open>
  Claim C5. A step of CLOCK at position \<open>i\<close>. On a hit at frame \<open>h\<close> the bit of \<open>h\<close>
  becomes 1, frames and hand stay. On a fault with an empty frame, the page goes into
  the lowest empty frame \<open>e\<close>, the bit of \<open>e\<close> becomes 1 and the hand stays. On a fault
  with a full table the scan passes \<open>k\<close> frames from the hand on, all with bit 1, and
  clears their bits; the victim \<open>v\<close> is the next frame, whose bit is then 0 (\<open>k\<close> is a
  full turn exactly when all bits were 1); the page replaces the occupant of \<open>v\<close>, the
  bit of \<open>v\<close> becomes 1 and the hand moves to \<open>(v + 1) mod framesCount\<close>.
\<close>

theorem clock_step_behaviour:
  assumes "0 < fc" and "i < length refs"
  shows "\<exists>st st' s.
     clock_run fc refs i = Inr st \<and> clock_run fc refs (Suc i) = Inr st' \<and>
     clock_steps st' = clock_steps st @ [s] \<and>
     meta s = Some \<lparr>refBits = clock_refBits st', hand = clock_hand st'\<rparr> \<and>
     (\<forall>h. indexOf (clock_frames st) (Some (refs ! i)) = Some h \<longrightarrow>
        hit s \<and> clock_frames st ! h = Some (refs ! i) \<and>
        clock_refBits st' = (clock_refBits st)[h := 1] \<and>
        clock_hand st' = clock_hand st \<and>
        clock_frames st' = clock_frames st \<and> replaced s = None \<and> replacedIndex s = None) \<and>
     (\<forall>e. indexOf (clock_frames st) (Some (refs ! i)) = None \<and>
          indexOf (clock_frames st) None = Some e \<longrightarrow>
        fault s \<and> clock_frames st ! e = None \<and> (\<forall>j<e. clock_frames st ! j \<noteq> None) \<and>
        clock_frames st' = (clock_frames st)[e := Some (refs ! i)] \<and>
        clock_refBits st' = (clock_refBits st)[e := 1] \<and>
        clock_hand st' = clock_hand st \<and> replaced s = None \<and> replacedIndex s = None) \<and>
     (indexOf (clock_frames st) (Some (refs ! i)) = None \<and>
      indexOf (clock_frames st) None = None \<longrightarrow>
        (\<exists>k\<le>fc. \<exists>v<fc. v = (clock_hand st + k) mod fc \<and> fault s \<and>
           (\<forall>j<k. clock_refBits st ! ((clock_hand st + j) mod fc) = 1) \<and>
           (k < fc \<longrightarrow> clock_refBits st ! v = 0) \<and>
           clock_frames st' = (clock_frames st)[v := Some (refs ! i)] \<and>
           replaced s = clock_frames st ! v \<and> replacedIndex s = Some (int v) \<and>
           clock_hand st' = (v + 1) mod fc \<and>
           length (clock_refBits st') = fc \<and>
           (\<forall>x<fc. clock_refBits st' ! x =
              (if x = v then 1
               else if \<exists>j<k. x = (clock_hand st + j) mod fc then 0
               else clock_refBits st ! x))))"
proof -
  let ?st = "clock_state_at fc refs i" and ?st' = "clock_state_at fc refs (Suc i)"
  let ?fr = "clock_frames ?st" and ?bits = "clock_refBits ?st" and ?hd = "clock_hand ?st"
  let ?p = "refs ! i"
  have run: "clock_run fc refs i = Inr ?st" "clock_run fc refs (Suc i) = Inr ?st'"
    by (rule clock_run_state_at [OF assms(1)])+
  have stp: "clock_step fc refs ?st i = Inr ?st'"
    by (rule clock_state_at_Suc [OF assms(1)])
  from clock_inv_state_at [OF assms(1), of refs i]
  have bl: "length ?bits = fc" and hd: "?hd < fc" and b01: "bits01 ?bits"
    and tr: "trace_inv fc refs i ?fr (clock_hits ?st) (clock_faults ?st) (clock_steps ?st)"
    by (simp_all add: clock_inv_def)
  from tr have len: "length ?fr = fc" by (simp add: trace_inv_def)
  show ?thesis
  proof (cases "indexOf ?fr (Some ?p)")
    case (Some h)
    from stp have eq: "?st' = ?st\<lparr>clock_refBits := ?bits[h := 1],
             clock_hits := clock_hits ?st + 1,
             clock_steps := clock_steps ?st @
               [\<lparr>index = i, page = ?p, frames = ?fr,
                 hit = True, fault = False, replaced = None, replacedIndex = None,
                 meta = Some \<lparr>refBits = ?bits[h := 1], hand = ?hd\<rparr>\<rparr>]\<rparr>"
      by (simp add: clock_step_hit [OF Some])
    let ?s = "\<lparr>index = i, page = ?p, frames = ?fr,
                 hit = True, fault = False, replaced = None, replacedIndex = None,
                 meta = Some \<lparr>refBits = ?bits[h := 1], hand = ?hd\<rparr>\<rparr>"
    have a: "clock_steps ?st' = clock_steps ?st @ [?s]"
      "clock_refBits ?st' = ?bits[h := 1]" "clock_hand ?st' = ?hd" "clock_frames ?st' = ?fr"
      by (subst eq, simp)+
    from indexOf_SomeD [OF Some] have "?fr ! h = Some ?p" by simp
    with a Some run show ?thesis
      by (intro exI [of _ ?st] exI [of _ ?st'] exI [of _ ?s]) simp
  next
    case miss: None
    show ?thesis
    proof (cases "indexOf ?fr None")
      case (Some e)
      from stp have eq: "?st' = ?st\<lparr>clock_frames := ?fr[e := Some ?p],
             clock_refBits := ?bits[e := 1],
             clock_faults := clock_faults ?st + 1,
             clock_steps := clock_steps ?st @
               [\<lparr>index = i, page = ?p, frames = ?fr[e := Some ?p],
                 hit = False, fault = True, replaced = None, replacedIndex = None,
                 meta = Some \<lparr>refBits = ?bits[e := 1], hand = ?hd\<rparr>\<rparr>]\<rparr>"
        by (simp add: clock_step_fill [OF miss Some])
      let ?s = "\<lparr>index = i, page = ?p, frames = ?fr[e := Some ?p],
                 hit = False, fault = True, replaced = None, replacedIndex = None,
                 meta = Some \<lparr>refBits = ?bits[e := 1], hand = ?hd\<rparr>\<rparr>"
      have a: "clock_steps ?st' = clock_steps ?st @ [?s]"
        "clock_refBits ?st' = ?bits[e := 1]" "clock_hand ?st' = ?hd"
        "clock_frames ?st' = ?fr[e := Some ?p]"
        by (subst eq, simp)+
      from indexOf_SomeD [OF Some] have "?fr ! e = None" "\<forall>j<e. ?fr ! j \<noteq> None" by simp_all
      with a Some miss run show ?thesis
        by (intro exI [of _ ?st] exI [of _ ?st'] exI [of _ ?s]) simp
    next
      case None
      from clock_scan_total [OF hd bl, of ?p ?fr]
      obtain k where k: "k \<le> fc" "\<forall>j<k. ?bits ! ((?hd + j) mod fc) \<noteq> 0"
        "k < fc \<longrightarrow> ?bits ! ((?hd + k) mod fc) = 0"
        and sc: "clock_scan fc ?p ?fr ?bits ?hd 0 =
             Inr \<lparr>ev_frames = ?fr[(?hd + k) mod fc := Some ?p],
                  ev_refBits = (clock_cleared fc ?bits ?hd k)[(?hd + k) mod fc := 1],
                  ev_hand = ((?hd + k) mod fc + 1) mod fc,
                  ev_victimIndex = (?hd + k) mod fc,
                  ev_victimPage = ?fr ! ((?hd + k) mod fc),
                  ev_scans = k + 1\<rparr>"
        by blast
      let ?v = "(?hd + k) mod fc"
      let ?bits' = "(clock_cleared fc ?bits ?hd k)[?v := 1]"
      let ?s = "\<lparr>index = i, page = ?p, frames = ?fr[?v := Some ?p],
                 hit = False, fault = True, replaced = ?fr ! ?v,
                 replacedIndex = Some (int ?v),
                 meta = Some \<lparr>refBits = ?bits', hand = (?v + 1) mod fc\<rparr>\<rparr>"
      from stp have eq: "?st' = ?st\<lparr>clock_frames := ?fr[?v := Some ?p],
             clock_refBits := ?bits',
             clock_hand := (?v + 1) mod fc,
             clock_faults := clock_faults ?st + 1,
             clock_steps := clock_steps ?st @ [?s]\<rparr>"
        by (simp add: clock_step_evict [OF miss None sc])
      have a: "clock_steps ?st' = clock_steps ?st @ [?s]"
        "clock_refBits ?st' = ?bits'" "clock_hand ?st' = (?v + 1) mod fc"
        "clock_frames ?st' = ?fr[?v := Some ?p]"
        by (subst eq, simp)+
      have v: "?v < fc" using assms(1) by simp
      have ones: "\<forall>j<k. ?bits ! ((?hd + j) mod fc) = 1"
      proof (intro allI impI)
        fix j assume "j < k"
        with k(2) have "?bits ! ((?hd + j) mod fc) \<noteq> 0" by blast
        moreover have "(?hd + j) mod fc < length ?bits" using bl assms(1) by simp
        ultimately show "?bits ! ((?hd + j) mod fc) = 1"
          using bits01_nth [OF b01] by blast
      qed
      have nth: "\<forall>x<fc. ?bits' ! x =
              (if x = ?v then 1
               else if \<exists>j<k. x = (?hd + j) mod fc then 0
               else ?bits ! x)"
      proof (intro allI impI)
        fix x assume x: "x < fc"
        then have xl: "x < length ?bits" using bl by simp
        show "?bits' ! x = (if x = ?v then 1
               else if \<exists>j<k. x = (?hd + j) mod fc then 0 else ?bits ! x)"
          using clock_cleared_nth [OF hd xl, of k] x v bl
          by (simp add: nth_list_update)
      qed
      have "\<exists>k\<le>fc. \<exists>v<fc. v = (?hd + k) mod fc \<and> fault ?s \<and>
           (\<forall>j<k. ?bits ! ((?hd + j) mod fc) = 1) \<and>
           (k < fc \<longrightarrow> ?bits ! v = 0) \<and>
           clock_frames ?st' = ?fr[v := Some ?p] \<and>
           replaced ?s = ?fr ! v \<and> replacedIndex ?s = Some (int v) \<and>
           clock_hand ?st' = (v + 1) mod fc \<and>
           length (clock_refBits ?st') = fc \<and>
           (\<forall>x<fc. clock_refBits ?st' ! x =
              (if x = v then 1
               else if \<exists>j<k. x = (?hd + j) mod fc then 0
               else ?bits ! x))"
        using k(1,3) v ones nth a bl
        by (intro exI [of _ k] conjI exI [of _ ?v]) simp_all
      with a None miss run show ?thesis
        by (intro exI [of _ ?st] exI [of _ ?st'] exI [of _ ?s]) simp
    qed
  qed
qed

theorem clock_step_behaviour_witness:
  "(0::nat) < 2 \<and> 0 < length [1, 2, 1, 3, 2 :: page] \<and> 2 < length [1, 2, 1, 3, 2 :: page] \<and>
   3 < length [1, 2, 1, 3, 2 :: page] \<and>
   (\<exists>st st'. clock_run 2 [1, 2, 1, 3, 2] 2 = Inr st \<and> clock_run 2 [1, 2, 1, 3, 2] (Suc 2) = Inr st' \<and>
      indexOf (clock_frames st) (Some ([1, 2, 1, 3, 2] ! 2)) = Some 0 \<and>
      clock_refBits st' = (clock_refBits st)[0 := 1] \<and> clock_hand st' = clock_hand st \<and>
      clock_frames st' = clock_frames st) \<and>
   (\<exists>st st'. clock_run 2 [1, 2, 1, 3, 2] 0 = Inr st \<and> clock_run 2 [1, 2, 1, 3, 2] (Suc 0) = Inr st' \<and>
      indexOf (clock_frames st) (Some ([1, 2, 1, 3, 2] ! 0)) = None \<and>
      indexOf (clock_frames st) None = Some 0 \<and>
      clock_frames st' = (clock_frames st)[0 := Some ([1, 2, 1, 3, 2] ! 0)] \<and>
      clock_refBits st' = (clock_refBits st)[0 := 1] \<and> clock_hand st' = clock_hand st) \<and>
   (\<exists>st st'. clock_run 2 [1, 2, 1, 3, 2] 3 = Inr st \<and> clock_run 2 [1, 2, 1, 3, 2] (Suc 3) = Inr st' \<and>
      indexOf (clock_frames st) (Some ([1, 2, 1, 3, 2] ! 3)) = None \<and>
      indexOf (clock_frames st) None = None \<and>
      (\<exists>k\<le>2. \<exists>v<2. v = (clock_hand st + k) mod 2 \<and>
         (\<forall>j<k. clock_refBits st ! ((clock_hand st + j) mod 2) = 1) \<and>
         clock_frames st' = (clock_frames st)[v := Some ([1, 2, 1, 3, 2] ! 3)] \<and>
         clock_hand st' = (v + 1) mod 2))"
proof -
  let ?refs = "[1, 2, 1, 3, 2] :: page list"
  have h1: "(0::nat) < 2" by simp
  have l: "0 < length ?refs" "2 < length ?refs" "3 < length ?refs" by simp_all
  have f0: "(case clock_run 2 ?refs 0 of Inr st \<Rightarrow> clock_frames st | Inl e \<Rightarrow> []) = [None, None]"
    by code_simp
  have f2: "(case clock_run 2 ?refs 2 of Inr st \<Rightarrow> clock_frames st | Inl e \<Rightarrow> []) = [Some 1, Some 2]"
    by code_simp
  have f3: "(case clock_run 2 ?refs 3 of Inr st \<Rightarrow> clock_frames st | Inl e \<Rightarrow> []) = [Some 1, Some 2]"
    by code_simp
  have hit: "\<exists>st st'. clock_run 2 ?refs 2 = Inr st \<and> clock_run 2 ?refs (Suc 2) = Inr st' \<and>
      indexOf (clock_frames st) (Some (?refs ! 2)) = Some 0 \<and>
      clock_refBits st' = (clock_refBits st)[0 := 1] \<and> clock_hand st' = clock_hand st \<and>
      clock_frames st' = clock_frames st"
  proof -
    from clock_step_behaviour [OF h1 l(2)] obtain st st' and s :: step where
      r: "clock_run 2 ?refs 2 = Inr st" "clock_run 2 ?refs (Suc 2) = Inr st'"
      and c: "\<forall>h. indexOf (clock_frames st) (Some (?refs ! 2)) = Some h \<longrightarrow>
        hit s \<and> clock_frames st ! h = Some (?refs ! 2) \<and>
        clock_refBits st' = (clock_refBits st)[h := 1] \<and>
        clock_hand st' = clock_hand st \<and>
        clock_frames st' = clock_frames st \<and> replaced s = None \<and> replacedIndex s = None"
      by blast
    from f2 have "clock_frames st = [Some 1, Some 2]" by (simp add: r(1))
    then have "indexOf (clock_frames st) (Some (?refs ! 2)) = Some 0" by simp
    with r c show ?thesis by blast
  qed
  have fill: "\<exists>st st'. clock_run 2 ?refs 0 = Inr st \<and> clock_run 2 ?refs (Suc 0) = Inr st' \<and>
      indexOf (clock_frames st) (Some (?refs ! 0)) = None \<and>
      indexOf (clock_frames st) None = Some 0 \<and>
      clock_frames st' = (clock_frames st)[0 := Some (?refs ! 0)] \<and>
      clock_refBits st' = (clock_refBits st)[0 := 1] \<and> clock_hand st' = clock_hand st"
  proof -
    from clock_step_behaviour [OF h1 l(1)] obtain st st' and s :: step where
      r: "clock_run 2 ?refs 0 = Inr st" "clock_run 2 ?refs (Suc 0) = Inr st'"
      and c: "\<forall>e. indexOf (clock_frames st) (Some (?refs ! 0)) = None \<and>
          indexOf (clock_frames st) None = Some e \<longrightarrow>
        fault s \<and> clock_frames st ! e = None \<and> (\<forall>j<e. clock_frames st ! j \<noteq> None) \<and>
        clock_frames st' = (clock_frames st)[e := Some (?refs ! 0)] \<and>
        clock_refBits st' = (clock_refBits st)[e := 1] \<and>
        clock_hand st' = clock_hand st \<and> replaced s = None \<and> replacedIndex s = None"
      by blast
    from f0 have "clock_frames st = [None, None]" by (simp add: r(1))
    then have "indexOf (clock_frames st) (Some (?refs ! 0)) = None"
      "indexOf (clock_frames st) None = Some 0" by simp_all
    with r c show ?thesis by blast
  qed
  have evict: "\<exists>st st'. clock_run 2 ?refs 3 = Inr st \<and> clock_run 2 ?refs (Suc 3) = Inr st' \<and>
      indexOf (clock_frames st) (Some (?refs ! 3)) = None \<and>
      indexOf (clock_frames st) None = None \<and>
      (\<exists>k\<le>2. \<exists>v<2. v = (clock_hand st + k) mod 2 \<and>
         (\<forall>j<k. clock_refBits st ! ((clock_hand st + j) mod 2) = 1) \<and>
         clock_frames st' = (clock_frames st)[v := Some (?refs ! 3)] \<and>
         clock_hand st' = (v + 1) mod 2)"
  proof -
    from clock_step_behaviour [OF h1 l(3)] obtain st st' and s :: step where
      r: "clock_run 2 ?refs 3 = Inr st" "clock_run 2 ?refs (Suc 3) = Inr st'"
      and c: "indexOf (clock_frames st) (Some (?refs ! 3)) = None \<and>
      indexOf (clock_frames st) None = None \<longrightarrow>
        (\<exists>k\<le>2. \<exists>v<2. v = (clock_hand st + k) mod 2 \<and> fault s \<and>
           (\<forall>j<k. clock_refBits st ! ((clock_hand st + j) mod 2) = 1) \<and>
           (k < 2 \<longrightarrow> clock_refBits st ! v = 0) \<and>
           clock_frames st' = (clock_frames st)[v := Some (?refs ! 3)] \<and>
           replaced s = clock_frames st ! v \<and> replacedIndex s = Some (int v) \<and>
           clock_hand st' = (v + 1) mod 2 \<and>
           length (clock_refBits st') = 2 \<and>
           (\<forall>x<2. clock_refBits st' ! x =
              (if x = v then 1
               else if \<exists>j<k. x = (clock_hand st + j) mod 2 then 0
               else clock_refBits st ! x)))"
      by blast
    from f3 have "clock_frames st = [Some 1, Some 2]" by (simp add: r(1))
    then have h: "indexOf (clock_frames st) (Some (?refs ! 3)) = None"
      "indexOf (clock_frames st) None = None" by simp_all
    with c obtain k v where "k \<le> 2" "v < 2" "v = (clock_hand st + k) mod 2"
      "\<forall>j<k. clock_refBits st ! ((clock_hand st + j) mod 2) = 1"
      "clock_frames st' = (clock_frames st)[v := Some (?refs ! 3)]"
      "clock_hand st' = (v + 1) mod 2"
      by blast
    with r h show ?thesis by blast
  qed
  from h1 l hit fill evict show ?thesis by blast
qed

subsection \<open>OPT against the other engines\<close>

text \<open>
  Claim C1. For a capacity accepted by the dispatcher and a non-empty reference list,
  the four engines all return a result, and the fault count of OPT is at most the fault
  count of FIFO, of LRU and of CLOCK on the same input.
\<close>

theorem opt_is_optimal:
  assumes "validFrames c" and "refs \<noteq> []"
  shows "\<exists>ro rf rl rc.
     simulate ''OPT'' c refs = Inr ro \<and> simulate ''FIFO'' c refs = Inr rf \<and>
     simulate ''LRU'' c refs = Inr rl \<and> simulate ''CLOCK'' c refs = Inr rc \<and>
     faults (summary ro) \<le> faults (summary rf) \<and>
     faults (summary ro) \<le> faults (summary rl) \<and>
     faults (summary ro) \<le> faults (summary rc)"
proof -
  have fc: "0 < framesOf c" using assms(1) by (simp add: validFrames_pos)
  from opt_le_clock [OF fc, of refs] obtain rc where
    rc: "simulateCLOCK (framesOf c) refs = Inr rc"
    "faults (summary (simulateOPT (framesOf c) refs)) \<le> faults (summary rc)"
    by blast
  have "simulate ''OPT'' c refs = Inr (simulateOPT (framesOf c) refs)"
    "simulate ''FIFO'' c refs = Inr (simulateFIFO (framesOf c) refs)"
    "simulate ''LRU'' c refs = Inr (simulateLRU (framesOf c) refs)"
    "simulate ''CLOCK'' c refs = Inr rc"
    by (simp_all add: simulate_valid [OF assms] rc(1))
  with rc(2) opt_le_fifo [OF fc, of refs] opt_le_lru [OF fc, of refs] show ?thesis
    by blast
qed

theorem opt_is_optimal_witness:
  "validFrames (JNum 2) \<and> [1, 2, 1, 3, 2] \<noteq> ([] :: page list) \<and>
   (\<exists>ro rf rl rc.
     simulate ''OPT'' (JNum 2) [1, 2, 1, 3, 2] = Inr ro \<and>
     simulate ''FIFO'' (JNum 2) [1, 2, 1, 3, 2] = Inr rf \<and>
     simulate ''LRU'' (JNum 2) [1, 2, 1, 3, 2] = Inr rl \<and>
     simulate ''CLOCK'' (JNum 2) [1, 2, 1, 3, 2] = Inr rc \<and>
     faults (summary ro) \<le> faults (summary rf) \<and>
     faults (summary ro) \<le> faults (summary rl) \<and>
     faults (summary ro) \<le> faults (summary rc))"
proof -
  have h1: "validFrames (JNum 2)" by simp
  have h2: "[1, 2, 1, 3, 2] \<noteq> ([] :: page list)" by simp
  from opt_is_optimal [OF h1 h2] h1 h2 show ?thesis by blast
qed

end
